theory Spec2Isabelle
  imports Complex_Main "HOL-Library.Char_ord"
begin

section \<open>Categories and errors\<close>

text \<open>The enumeration \<open>PIIType\<close> of detectors.py.\<close>

datatype PIIType =
    EMAIL | PHONE | SSN | CREDIT_CARD | IP_ADDRESS | DATE | ADDRESS | PASSPORT
  | DRIVER_LICENSE | BANK_ACCOUNT | NAME | CUSTOM

text \<open>
  The exceptions the modelled code can raise: \<open>ValueError\<close> comes out of the random
  source when it is asked for a number from an empty or non-integer range,
  \<open>ReError\<close> is \<open>re.error\<close>, raised by \<open>re.compile\<close> on a malformed pattern.
  \<open>Unmodelled\<close> is not a Python exception: the model of \<open>re.compile\<close> returns it for
  pattern syntax it does not cover (anchors, lazy and possessive quantifiers, look-around,
  back-references, named groups, inline flags and the rarer escapes), whatever Python does
  with such a pattern. \<open>BackendError\<close> is whatever an external detection backend raises.
\<close>

datatype py_error = ValueError | ReError | Unmodelled | BackendError

section \<open>Python strings\<close>

text \<open>
  A text is a list of characters; a character is a code point below 256. The character
  classes below are Python's Unicode classes restricted to that range.
\<close>

definition is_ascii_digit :: "char \<Rightarrow> bool" where
  "is_ascii_digit c = (CHR ''0'' \<le> c \<and> c \<le> CHR ''9'')"

definition is_ascii_upper :: "char \<Rightarrow> bool" where
  "is_ascii_upper c = (CHR ''A'' \<le> c \<and> c \<le> CHR ''Z'')"

definition is_ascii_lower :: "char \<Rightarrow> bool" where
  "is_ascii_lower c = (CHR ''a'' \<le> c \<and> c \<le> CHR ''z'')"

definition code :: "char \<Rightarrow> nat" where
  "code c = of_char c"

text \<open>\<open>str.isalpha\<close> on one character: the letters of ASCII and of Latin-1.\<close>

definition isalpha :: "char \<Rightarrow> bool" where
  "isalpha c = (is_ascii_upper c \<or> is_ascii_lower c \<or> code c = 170 \<or> code c = 181
     \<or> code c = 186 \<or> (192 \<le> code c \<and> code c \<noteq> 215 \<and> code c \<noteq> 247))"

text \<open>\<open>str.isdigit\<close> on one character: the ASCII digits and the superscripts 1, 2, 3.\<close>

definition isdigit :: "char \<Rightarrow> bool" where
  "isdigit c = (is_ascii_digit c \<or> code c = 178 \<or> code c = 179 \<or> code c = 185)"

text \<open>\<open>str.isspace\<close> on one character.\<close>

definition isspace :: "char \<Rightarrow> bool" where
  "isspace c = ((9 \<le> code c \<and> code c \<le> 13) \<or> (28 \<le> code c \<and> code c \<le> 32)
     \<or> code c = 133 \<or> code c = 160)"

text \<open>\<open>str(n)\<close> for an integer.\<close>

definition digit_char :: "nat \<Rightarrow> char" where
  "digit_char d = ''0123456789'' ! d"

fun str_nat :: "nat \<Rightarrow> string" where
  "str_nat n = (if n < 10 then [digit_char n] else str_nat (n div 10) @ [digit_char (n mod 10)])"

declare str_nat.simps [simp del]

definition str_int :: "int \<Rightarrow> string" where
  "str_int i = (if i < 0 then CHR ''-'' # str_nat (nat (- i)) else str_nat (nat i))"

text \<open>\<open>s.startswith(p)\<close>, \<open>c in s\<close>, \<open>s.index(c)\<close> under the guard \<open>c in s\<close>.\<close>

definition startswith :: "string \<Rightarrow> string \<Rightarrow> bool" where
  "startswith s p = (take (length p) s = p)"

fun index_of :: "char \<Rightarrow> string \<Rightarrow> nat" where
  "index_of c [] = 0"
| "index_of c (x # xs) = (if x = c then 0 else Suc (index_of c xs))"

text \<open>\<open>sep.join(parts)\<close>.\<close>

fun join :: "string \<Rightarrow> string list \<Rightarrow> string" where
  "join sep [] = []"
| "join sep [p] = p"
| "join sep (p # q # ps) = p @ sep @ join sep (q # ps)"

text \<open>\<open>s.replace(c, r)\<close> for a one-character \<open>c\<close>.\<close>

definition replace_char :: "char \<Rightarrow> string \<Rightarrow> string \<Rightarrow> string" where
  "replace_char c r s = concat (map (\<lambda>x. if x = c then r else [x]) s)"

text \<open>\<open>len(s.split())\<close>: the number of maximal runs of non-space characters.\<close>

fun count_tokens :: "bool \<Rightarrow> string \<Rightarrow> nat" where
  "count_tokens inside [] = 0"
| "count_tokens inside (c # cs) =
     (if isspace c then count_tokens False cs
      else (if inside then 0 else 1) + count_tokens True cs)"

section \<open>The random source\<close>

text \<open>
  The Faker instance is a library outside the repository. It is a parameter of the
  model: \<open>'r\<close> is the state of its random generator and each provider method maps a state
  to a value and the next state. \<open>md5_seed\<close> is
  \<open>int(hashlib.md5(original.encode()).hexdigest()[:8], 16)\<close>.
\<close>

record date =
  year :: nat
  month :: nat
  day :: nat

record 'r faker_lib =
  md5_seed :: "string \<Rightarrow> nat"
  fk_seed_instance :: "nat \<Rightarrow> 'r \<Rightarrow> 'r"
  fk_email :: "'r \<Rightarrow> string \<times> 'r"
  fk_phone_number :: "'r \<Rightarrow> string \<times> 'r"
  fk_ssn :: "'r \<Rightarrow> string \<times> 'r"
  fk_credit_card_number :: "'r \<Rightarrow> string \<times> 'r"
  fk_ipv4 :: "'r \<Rightarrow> string \<times> 'r"
  fk_ipv6 :: "'r \<Rightarrow> string \<times> 'r"
  fk_date_object :: "'r \<Rightarrow> date \<times> 'r"
  fk_address :: "'r \<Rightarrow> string \<times> 'r"
  fk_iban :: "'r \<Rightarrow> string \<times> 'r"
  fk_first_name :: "'r \<Rightarrow> string \<times> 'r"
  fk_last_name :: "'r \<Rightarrow> string \<times> 'r"
  fk_name :: "'r \<Rightarrow> string \<times> 'r"
  fk_random_digit :: "'r \<Rightarrow> nat \<times> 'r"
  fk_randrange :: "int \<Rightarrow> int \<Rightarrow> 'r \<Rightarrow> int \<times> 'r"

text \<open>
  A Python number as \<open>10 ** e\<close> produces it: an integer for \<open>e \<ge> 0\<close>, the float
  \<open>0.1\<close>, \<open>0.01\<close>, ... (never an integer) for \<open>e < 0\<close>.
\<close>

datatype pynum = PyInt int | PyFloat

definition pow10 :: "int \<Rightarrow> pynum" where
  "pow10 e = (if e < 0 then PyFloat else PyInt (10 ^ nat e))"

text \<open>
  \<open>faker.random_int(min, max)\<close> is \<open>random.randrange(min, max + 1)\<close>, which raises
  \<open>ValueError\<close> for a non-integer bound and for an empty range.
\<close>

definition random_int :: "'r faker_lib \<Rightarrow> pynum \<Rightarrow> int \<Rightarrow> 'r \<Rightarrow> (py_error + int) \<times> 'r" where
  "random_int L lo hi r =
     (case lo of
        PyFloat \<Rightarrow> (Inl ValueError, r)
      | PyInt a \<Rightarrow> if hi < a then (Inl ValueError, r)
                  else (Inr (fst (fk_randrange L a hi r)), snd (fk_randrange L a hi r)))"

text \<open>Sequencing of calls that may raise, on the state of the random source.\<close>

definition bindE ::
  "('r \<Rightarrow> (py_error + 'a) \<times> 'r) \<Rightarrow> ('a \<Rightarrow> 'r \<Rightarrow> (py_error + 'b) \<times> 'r) \<Rightarrow> 'r \<Rightarrow> (py_error + 'b) \<times> 'r" where
  "bindE m f r = (case m r of (Inl e, r') \<Rightarrow> (Inl e, r') | (Inr a, r') \<Rightarrow> f a r')"

definition returnE :: "'a \<Rightarrow> 'r \<Rightarrow> (py_error + 'a) \<times> 'r" where
  "returnE a r = (Inr a, r)"

definition liftE :: "('r \<Rightarrow> 'a \<times> 'r) \<Rightarrow> 'r \<Rightarrow> (py_error + 'a) \<times> 'r" where
  "liftE m r = (Inr (fst (m r)), snd (m r))"

section \<open>generators.py: FakeDataGenerator\<close>

record 'r FakeDataGenerator =
  faker :: 'r
  consistent :: bool
  cache :: "string \<rightharpoonup> string"

definition generate_email :: "'r faker_lib \<Rightarrow> string \<Rightarrow> 'r \<Rightarrow> (py_error + string) \<times> 'r" where
  "generate_email L original = liftE (fk_email L)"

definition generate_phone :: "'r faker_lib \<Rightarrow> string \<Rightarrow> 'r \<Rightarrow> (py_error + string) \<times> 'r" where
  "generate_phone L original =
     (if startswith original ''+972'' then
        bindE (random_int L (PyInt 50) 59) (\<lambda>a.
        bindE (random_int L (PyInt 100) 999) (\<lambda>b.
        bindE (random_int L (PyInt 1000) 9999) (\<lambda>c.
        returnE (''+972-'' @ str_int a @ ''-'' @ str_int b @ ''-'' @ str_int c))))
      else if startswith original ''+1'' \<or> startswith original ''1'' then
        liftE (fk_phone_number L)
      else if CHR ''('' \<in> set original then
        bindE (random_int L (PyInt 200) 999) (\<lambda>area.
        bindE (random_int L (PyInt 100) 999) (\<lambda>b.
        bindE (random_int L (PyInt 1000) 9999) (\<lambda>c.
        returnE (''('' @ str_int area @ '') '' @ str_int b @ ''-'' @ str_int c))))
      else liftE (fk_phone_number L))"

definition generate_ssn :: "'r faker_lib \<Rightarrow> string \<Rightarrow> 'r \<Rightarrow> (py_error + string) \<times> 'r" where
  "generate_ssn L original =
     bindE (liftE (fk_ssn L)) (\<lambda>ssn.
     returnE (if CHR ''-'' \<notin> set original then replace_char CHR ''-'' [] ssn else ssn))"

text \<open>\<open>[cc[i:i+4] for i in range(0, 16, 4)]\<close>.\<close>

definition groups_of_4 :: "string \<Rightarrow> string list" where
  "groups_of_4 cc = map (\<lambda>i. take 4 (drop i cc)) [0, 4, 8, 12]"

definition generate_credit_card :: "'r faker_lib \<Rightarrow> string \<Rightarrow> 'r \<Rightarrow> (py_error + string) \<times> 'r" where
  "generate_credit_card L original =
     bindE (liftE (fk_credit_card_number L)) (\<lambda>cc.
     returnE (if CHR ''-'' \<in> set original then join ''-'' (groups_of_4 cc)
              else if CHR '' '' \<in> set original then join '' '' (groups_of_4 cc)
              else cc))"

definition generate_ip :: "'r faker_lib \<Rightarrow> string \<Rightarrow> 'r \<Rightarrow> (py_error + string) \<times> 'r" where
  "generate_ip L original =
     (if CHR '':'' \<in> set original then liftE (fk_ipv6 L) else liftE (fk_ipv4 L))"

text \<open>
  \<open>date.strftime\<close> for the four formats of the source: \<open>%m\<close> and \<open>%d\<close> are padded to two
  digits, \<open>%Y\<close> is the year, \<open>%B\<close> the English month name.
\<close>

definition pad2 :: "nat \<Rightarrow> string" where
  "pad2 n = (if n < 10 then CHR ''0'' # str_nat n else str_nat n)"

definition month_name :: "nat \<Rightarrow> string" where
  "month_name m =
     (if m = 1 then ''January'' else if m = 2 then ''February'' else if m = 3 then ''March''
      else if m = 4 then ''April'' else if m = 5 then ''May'' else if m = 6 then ''June''
      else if m = 7 then ''July'' else if m = 8 then ''August'' else if m = 9 then ''September''
      else if m = 10 then ''October'' else if m = 11 then ''November'' else ''December'')"

datatype date_format = Fmt_mdY_slash | Fmt_Ymd_slash | Fmt_Ymd_dash | Fmt_BdY

fun strftime :: "date_format \<Rightarrow> date \<Rightarrow> string" where
  "strftime Fmt_mdY_slash d = pad2 (month d) @ ''/'' @ pad2 (day d) @ ''/'' @ str_nat (year d)"
| "strftime Fmt_Ymd_slash d = str_nat (year d) @ ''/'' @ pad2 (month d) @ ''/'' @ pad2 (day d)"
| "strftime Fmt_Ymd_dash d = str_nat (year d) @ ''-'' @ pad2 (month d) @ ''-'' @ pad2 (day d)"
| "strftime Fmt_BdY d = month_name (month d) @ '' '' @ pad2 (day d) @ '', '' @ str_nat (year d)"

definition generate_date :: "'r faker_lib \<Rightarrow> string \<Rightarrow> 'r \<Rightarrow> (py_error + string) \<times> 'r" where
  "generate_date L original =
     bindE (liftE (fk_date_object L)) (\<lambda>fake_date.
     returnE (if CHR ''/'' \<in> set original then
                (if index_of CHR ''/'' original < 3 then strftime Fmt_mdY_slash fake_date
                 else strftime Fmt_Ymd_slash fake_date)
              else if CHR ''-'' \<in> set original then strftime Fmt_Ymd_dash fake_date
              else strftime Fmt_BdY fake_date))"

definition generate_address :: "'r faker_lib \<Rightarrow> string \<Rightarrow> 'r \<Rightarrow> (py_error + string) \<times> 'r" where
  "generate_address L original =
     bindE (liftE (fk_address L)) (\<lambda>a. returnE (replace_char (CHR 0x0A) '', '' a))"

definition generate_passport :: "'r faker_lib \<Rightarrow> string \<Rightarrow> 'r \<Rightarrow> (py_error + string) \<times> 'r" where
  "generate_passport L original =
     (let prefix = filter isalpha original;
          num_digits = int (length (filter isdigit original))
      in bindE (random_int L (pow10 (num_digits - 1)) (10 ^ nat num_digits - 1)) (\<lambda>n.
         returnE (prefix @ str_int n)))"

definition generate_driver_license :: "'r faker_lib \<Rightarrow> string \<Rightarrow> 'r \<Rightarrow> (py_error + string) \<times> 'r" where
  "generate_driver_license L original = generate_passport L original"

text \<open>\<open>''.join(str(self.faker.random_digit()) for _ in range(n))\<close>.\<close>

fun random_digits :: "'r faker_lib \<Rightarrow> nat \<Rightarrow> 'r \<Rightarrow> string \<times> 'r" where
  "random_digits L 0 r = ([], r)"
| "random_digits L (Suc n) r =
     (let (d, r1) = fk_random_digit L r; (ds, r2) = random_digits L n r1
      in (str_nat d @ ds, r2))"

text \<open>\<open>s.isalpha()\<close> on a string: not empty and every character a letter.\<close>

definition str_isalpha :: "string \<Rightarrow> bool" where
  "str_isalpha s = (s \<noteq> [] \<and> list_all isalpha s)"

definition generate_bank_account :: "'r faker_lib \<Rightarrow> string \<Rightarrow> 'r \<Rightarrow> (py_error + string) \<times> 'r" where
  "generate_bank_account L original =
     (if str_isalpha (take 2 original) then liftE (fk_iban L)
      else liftE (random_digits L (length original)))"

definition generate_name :: "'r faker_lib \<Rightarrow> string \<Rightarrow> 'r \<Rightarrow> (py_error + string) \<times> 'r" where
  "generate_name L original =
     (let parts = count_tokens False original
      in if parts = 1 then liftE (fk_first_name L)
         else if parts = 2 then liftE (fk_name L)
         else bindE (liftE (fk_first_name L)) (\<lambda>f.
              bindE (liftE (fk_last_name L)) (\<lambda>l. returnE (f @ '' '' @ l))))"

definition generate_generic :: "'r faker_lib \<Rightarrow> string \<Rightarrow> 'r \<Rightarrow> (py_error + string) \<times> 'r" where
  "generate_generic L original =
     bindE (random_int L (PyInt 1000) 9999) (\<lambda>n.
     returnE (''[REDACTED-'' @ str_int n @ '']''))"

fun generate_by_type :: "'r faker_lib \<Rightarrow> PIIType \<Rightarrow> string \<Rightarrow> 'r \<Rightarrow> (py_error + string) \<times> 'r" where
  "generate_by_type L EMAIL = generate_email L"
| "generate_by_type L PHONE = generate_phone L"
| "generate_by_type L SSN = generate_ssn L"
| "generate_by_type L CREDIT_CARD = generate_credit_card L"
| "generate_by_type L IP_ADDRESS = generate_ip L"
| "generate_by_type L DATE = generate_date L"
| "generate_by_type L ADDRESS = generate_address L"
| "generate_by_type L PASSPORT = generate_passport L"
| "generate_by_type L DRIVER_LICENSE = generate_driver_license L"
| "generate_by_type L BANK_ACCOUNT = generate_bank_account L"
| "generate_by_type L NAME = generate_name L"
| "generate_by_type L CUSTOM = generate_generic L"

text \<open>
  \<open>generate\<close>: the cache is read first; on a miss the random source is seeded from the
  original, the value is drawn, and it is stored only if drawing did not raise.
\<close>

definition generate ::
  "'r faker_lib \<Rightarrow> PIIType \<Rightarrow> string \<Rightarrow> 'r FakeDataGenerator
     \<Rightarrow> (py_error + string) \<times> 'r FakeDataGenerator" where
  "generate L pii_type original g =
     (if consistent g \<and> cache g original \<noteq> None then (Inr (the (cache g original)), g)
      else
        let r0 = (if consistent g then fk_seed_instance L (md5_seed L original) (faker g)
                  else faker g)
        in case generate_by_type L pii_type original r0 of
             (Inl e, r1) \<Rightarrow> (Inl e, g\<lparr>faker := r1\<rparr>)
           | (Inr fake_value, r1) \<Rightarrow>
               (Inr fake_value,
                if consistent g then g\<lparr>faker := r1, cache := (cache g)(original \<mapsto> fake_value)\<rparr>
                else g\<lparr>faker := r1\<rparr>))"

definition clear_cache :: "'r FakeDataGenerator \<Rightarrow> 'r FakeDataGenerator" where
  "clear_cache g = g\<lparr>cache := Map.empty\<rparr>"

text \<open>
  A sequence of \<open>generate\<close> calls on one generator: the results in call order, and the
  generator after the last call. A call that raises leaves the generator usable.
\<close>

fun generate_calls ::
  "'r faker_lib \<Rightarrow> (PIIType \<times> string) list \<Rightarrow> 'r FakeDataGenerator
     \<Rightarrow> (py_error + string) list \<times> 'r FakeDataGenerator" where
  "generate_calls L [] g = ([], g)"
| "generate_calls L ((t, v) # cs) g =
     (let (res, g1) = generate L t v g; (ress, g2) = generate_calls L cs g1
      in (res # ress, g2))"

section \<open>A fixed random source\<close>

text \<open>
  One instance of the library parameter, used to run the model on concrete inputs: the
  state is a counter, every provider returns a constant and advances the counter, and a
  number from a range is the lower bound plus the counter reduced into the range.
\<close>

definition tick :: "'a \<Rightarrow> nat \<Rightarrow> 'a \<times> nat" where
  "tick a r = (a, Suc r)"

definition fixed_faker :: "nat faker_lib" where
  "fixed_faker = \<lparr>
     md5_seed = length,
     fk_seed_instance = (\<lambda>s r. s),
     fk_email = tick ''user@example.org'',
     fk_phone_number = tick ''555-010-0199'',
     fk_ssn = tick ''123-45-6789'',
     fk_credit_card_number = tick ''4000000000000002'',
     fk_ipv4 = tick ''192.0.2.1'',
     fk_ipv6 = tick ''2001:db8:0:0:0:0:0:1'',
     fk_date_object = tick \<lparr>year = 1999, month = 2, day = 3\<rparr>,
     fk_address = tick ''1 Main Street'',
     fk_iban = tick ''GB00TEST00000000000000'',
     fk_first_name = tick ''Alex'',
     fk_last_name = tick ''Doe'',
     fk_name = tick ''Alex Doe'',
     fk_random_digit = (\<lambda>r. (r mod 10, Suc r)),
     fk_randrange = (\<lambda>lo hi r. (lo + int r mod (hi - lo + 1), Suc r))
   \<rparr>"

definition fresh_generator :: "nat FakeDataGenerator" where
  "fresh_generator = \<lparr>faker = 0, consistent = True, cache = Map.empty\<rparr>"

section \<open>Date layouts\<close>

text \<open>
  The two slash layouts of a ten-character date, read off the output string:
  \<open>MM/DD/YYYY\<close> and \<open>YYYY/MM/DD\<close>.
\<close>

definition digits_at :: "string \<Rightarrow> nat list \<Rightarrow> bool" where
  "digits_at s is = list_all (\<lambda>i. is_ascii_digit (s ! i)) is"

definition is_month_first :: "string \<Rightarrow> bool" where
  "is_month_first s = (length s = 10 \<and> s ! 2 = CHR ''/'' \<and> s ! 5 = CHR ''/''
     \<and> digits_at s [0, 1, 3, 4, 6, 7, 8, 9])"

definition is_year_first :: "string \<Rightarrow> bool" where
  "is_year_first s = (length s = 10 \<and> s ! 4 = CHR ''/'' \<and> s ! 7 = CHR ''/''
     \<and> digits_at s [0, 1, 2, 3, 5, 6, 8, 9])"

text \<open>A calendar date with a four-digit year, as the library draws them.\<close>

definition valid_date :: "date \<Rightarrow> bool" where
  "valid_date d = (1 \<le> month d \<and> month d \<le> 12 \<and> 1 \<le> day d \<and> day d \<le> 31
     \<and> 1000 \<le> year d \<and> year d \<le> 9999)"

text \<open>
  The specification's test for the month-first layout, in its own words: the original
  starts with a numeric group and that group is at most 12.
\<close>

fun digits_value :: "nat \<Rightarrow> string \<Rightarrow> nat" where
  "digits_value acc [] = acc"
| "digits_value acc (c # cs) = digits_value (10 * acc + (code c - 48)) cs"

definition spec_month_first :: "string \<Rightarrow> bool" where
  "spec_month_first original =
     (let g = takeWhile is_ascii_digit original in g \<noteq> [] \<and> digits_value 0 g \<le> 12)"

section \<open>The pattern engine\<close>

text \<open>
  Python's \<open>re\<close> module is a library outside the repository. It is modelled here for the
  pattern syntax the catalog uses: literals, escapes, character classes, groups,
  alternation, the greedy quantifiers and \<open>\b\<close>. \<open>\w\<close>, \<open>\d\<close> and \<open>\s\<close> are the
  Unicode classes restricted to code points below 256.
\<close>

definition is_word :: "char \<Rightarrow> bool" where
  "is_word c = (isalpha c \<or> isdigit c \<or> (188 \<le> code c \<and> code c \<le> 190) \<or> c = CHR ''_'')"

text \<open>
  Case folding under \<open>re.IGNORECASE\<close>. Only the built-in patterns are compiled with that
  flag, and their literals and classes are ASCII, so folding the ASCII letters is all the
  flag does in this program.
\<close>

definition ascii_lower :: "char \<Rightarrow> char" where
  "ascii_lower c = (if is_ascii_upper c then ''abcdefghijklmnopqrstuvwxyz'' ! (code c - 65) else c)"

definition ascii_upper :: "char \<Rightarrow> char" where
  "ascii_upper c = (if is_ascii_lower c then ''ABCDEFGHIJKLMNOPQRSTUVWXYZ'' ! (code c - 97) else c)"

text \<open>A member of a character class, and a parsed pattern.\<close>

datatype citem = CChar char | CRange char char | CDigit | CSpace | CWord

datatype regex = Eps | Cls bool "citem list" | AnyChar | Boundary
  | Cat regex regex | Alt regex regex | Rep nat "nat option" regex

fun item_match :: "citem \<Rightarrow> char \<Rightarrow> bool" where
  "item_match (CChar a) c = (c = a)"
| "item_match (CRange lo hi) c = (lo \<le> c \<and> c \<le> hi)"
| "item_match CDigit c = is_ascii_digit c"
| "item_match CSpace c = isspace c"
| "item_match CWord c = is_word c"

definition cls_match :: "bool \<Rightarrow> bool \<Rightarrow> citem list \<Rightarrow> char \<Rightarrow> bool" where
  "cls_match ic neg items c =
     (neg \<noteq> (list_ex (\<lambda>i. item_match i c \<or> (ic \<and> (item_match i (ascii_lower c) \<or> item_match i (ascii_upper c)))) items))"

text \<open>
  A position in the text being scanned: the offset, whether the character before it is a
  word character, and the text from the offset on.
\<close>

type_synonym cursor = "nat \<times> bool \<times> string"

fun remaining :: "cursor \<Rightarrow> nat" where
  "remaining (p, w, rest) = length rest"

fun step :: "(char \<Rightarrow> bool) \<Rightarrow> cursor \<Rightarrow> cursor list" where
  "step P (p, w, []) = []"
| "step P (p, w, c # cs) = (if P c then [(p + 1, is_word c, cs)] else [])"

fun at_boundary :: "cursor \<Rightarrow> bool" where
  "at_boundary (p, w, []) = w"
| "at_boundary (p, w, c # cs) = (w \<noteq> is_word c)"

text \<open>
  The greedy repeat \<open>r{lo,hi}\<close>, as the engine runs it: \<open>lo\<close> mandatory rounds, then
  further rounds while the bound allows and the previous optional round did not start at
  the same offset (the engine's protection against empty rounds); backtracking tries
  the longer alternatives first. The result lists the offsets where the repeat can end,
  in the engine's order of preference. The filter keeps cursors that are not behind
  the current one; every cursor a pattern returns satisfies it (lemma \<open>rmatch_suffix\<close>).
\<close>

function rep_loop ::
  "(cursor \<Rightarrow> cursor list) \<Rightarrow> nat \<Rightarrow> nat \<Rightarrow> nat option \<Rightarrow> nat option \<Rightarrow> cursor \<Rightarrow> cursor list" where
  "rep_loop f count lo hi lastp cur =
     (if count < lo then concat (map (rep_loop f (Suc count) lo hi lastp) (f cur))
      else (if (case hi of None \<Rightarrow> True | Some h \<Rightarrow> count < h) \<and> lastp \<noteq> Some (remaining cur)
            then concat (map (rep_loop f (Suc count) lo hi (Some (remaining cur)))
                   (filter (\<lambda>c. remaining c \<le> remaining cur) (f cur)))
            else []) @ [cur])"
  by pat_completeness auto
termination
  by (relation "measures
        [\<lambda>(f, count, lo, hi, lastp, cur). lo - count,
         \<lambda>(f, count, lo, hi, lastp, cur). (case hi of None \<Rightarrow> 0 | Some h \<Rightarrow> h - count),
         \<lambda>(f, count, lo, hi, lastp, cur).
            2 * remaining cur + (if lastp = Some (remaining cur) then 0 else 1)]")
     (auto split: option.splits)

text \<open>\<open>rmatch\<close>: the offsets where a pattern can end when it starts at the cursor, in order
  of preference.\<close>

declare rep_loop.simps [simp del]

fun rmatch :: "bool \<Rightarrow> regex \<Rightarrow> cursor \<Rightarrow> cursor list" where
  "rmatch ic Eps cur = [cur]"
| "rmatch ic (Cls neg items) cur = step (cls_match ic neg items) cur"
| "rmatch ic AnyChar cur = step (\<lambda>c. c \<noteq> CHR 0x0A) cur"
| "rmatch ic Boundary cur = (if at_boundary cur then [cur] else [])"
| "rmatch ic (Cat a b) cur = concat (map (rmatch ic b) (rmatch ic a cur))"
| "rmatch ic (Alt a b) cur = rmatch ic a cur @ rmatch ic b cur"
| "rmatch ic (Rep lo hi r) cur = rep_loop (rmatch ic r) 0 lo hi None cur"


section \<open>Parsing a pattern\<close>

text \<open>
  \<open>raw\<close> stands for Python's raw string literal \<open>r'...'\<close>: the patterns below are the
  source's, with each backslash written as a backquote.
\<close>

definition raw :: "string \<Rightarrow> string" where
  "raw s = map (\<lambda>c. if c = CHR ''`'' then CHR 0x5C else c) s"

definition is_ascii_alnum :: "char \<Rightarrow> bool" where
  "is_ascii_alnum c = (is_ascii_digit c \<or> is_ascii_upper c \<or> is_ascii_lower c)"

text \<open>
  Tokens of a pattern. A quantifier carries its bounds and whether it is written \<open>?\<close> or
  \<open>+\<close>, which after another quantifier would make it lazy or possessive.
\<close>

datatype token = TAtom regex | TQuant nat "nat option" bool | TOpen | TClose | TBar

definition class_escape :: "char \<Rightarrow> py_error + citem" where
  "class_escape c =
     (if c = CHR ''d'' then Inr CDigit else if c = CHR ''s'' then Inr CSpace
      else if c = CHR ''w'' then Inr CWord
      else if c = CHR ''n'' then Inr (CChar (CHR 0x0A)) else if c = CHR ''t'' then Inr (CChar (CHR 0x09))
      else if c = CHR ''r'' then Inr (CChar (CHR 0x0D)) else if c = CHR ''b'' then Inr (CChar (CHR 0x08))
      else if is_ascii_alnum c then Inl Unmodelled
      else Inr (CChar c))"

text \<open>
  The members of a character class, read left to right: \<open>a-z\<close> is a range, a dash first
  or last is a literal, an escape stands for a class or a literal.
\<close>

datatype pending = Idle | Esc | Have citem | Dash citem | DashEsc citem

definition mk_range :: "citem \<Rightarrow> citem \<Rightarrow> py_error + citem" where
  "mk_range a b = (case (a, b) of
       (CChar lo, CChar hi) \<Rightarrow> if hi < lo then Inl ReError else Inr (CRange lo hi)
     | _ \<Rightarrow> Inl ReError)"

fun class_items :: "pending \<Rightarrow> string \<Rightarrow> py_error + citem list" where
  "class_items Idle [] = Inr []"
| "class_items Esc [] = Inl ReError"
| "class_items (Have i) [] = Inr [i]"
| "class_items (Dash i) [] = Inr [i, CChar CHR ''-'']"
| "class_items (DashEsc i) [] = Inl ReError"
| "class_items Idle (c # cs) =
     (if c = CHR 0x5C then class_items Esc cs else class_items (Have (CChar c)) cs)"
| "class_items Esc (c # cs) =
     (case class_escape c of Inl e \<Rightarrow> Inl e | Inr i \<Rightarrow> class_items (Have i) cs)"
| "class_items (Have i) (c # cs) =
     (if c = CHR ''-'' then class_items (Dash i) cs
      else case (if c = CHR 0x5C then class_items Esc cs else class_items (Have (CChar c)) cs) of
             Inl e \<Rightarrow> Inl e | Inr is \<Rightarrow> Inr (i # is))"
| "class_items (Dash i) (c # cs) =
     (if c = CHR 0x5C then class_items (DashEsc i) cs
      else case mk_range i (CChar c) of
             Inl e \<Rightarrow> Inl e
           | Inr r \<Rightarrow> (case class_items Idle cs of Inl e \<Rightarrow> Inl e | Inr is \<Rightarrow> Inr (r # is)))"
| "class_items (DashEsc i) (c # cs) =
     (case class_escape c of
        Inl e \<Rightarrow> Inl e
      | Inr j \<Rightarrow> (case mk_range i j of
             Inl e \<Rightarrow> Inl e
           | Inr r \<Rightarrow> (case class_items Idle cs of Inl e \<Rightarrow> Inl e | Inr is \<Rightarrow> Inr (r # is))))"

text \<open>The offset of the closing bracket: the first unescaped \<open>]\<close> that is not the first member.\<close>

fun class_end :: "bool \<Rightarrow> string \<Rightarrow> nat option" where
  "class_end seen [] = None"
| "class_end seen [c] = (if c = CHR '']'' \<and> seen then Some 0 else None)"
| "class_end seen (c # d # cs) =
     (if c = CHR '']'' \<and> seen then Some 0
      else if c = CHR 0x5C then map_option (\<lambda>n. n + 2) (class_end True cs)
      else map_option Suc (class_end True (d # cs)))"

definition class_token :: "string \<Rightarrow> py_error + (token \<times> nat)" where
  "class_token cs =
     (let neg = (case cs of [] \<Rightarrow> False | c # _ \<Rightarrow> c = CHR ''^'');
          body = (if neg then drop 1 cs else cs)
      in case class_end False body of
           None \<Rightarrow> Inl ReError
         | Some n \<Rightarrow> (case class_items Idle (take n body) of
               Inl e \<Rightarrow> Inl e
             | Inr is \<Rightarrow> Inr (TAtom (Cls neg is), (if neg then 1 else 0) + n + 1)))"

text \<open>
  \<open>{m}\<close>, \<open>{m,}\<close>, \<open>{,n}\<close> and \<open>{m,n}\<close> are quantifiers; any other text after an opening brace
  leaves the brace a literal.
\<close>

definition brace_token :: "string \<Rightarrow> py_error + (token \<times> nat)" where
  "brace_token cs =
     (let lo = takeWhile is_ascii_digit cs; r1 = dropWhile is_ascii_digit cs;
          literal = Inr (TAtom (Cls False [CChar CHR ''{'']), 0)
      in case cs of
           [] \<Rightarrow> literal
         | c # _ \<Rightarrow>
            if c = CHR ''}'' then literal
            else (case r1 of
               [] \<Rightarrow> literal
             | d # r2 \<Rightarrow>
                 if d = CHR ''}'' then
                   Inr (TQuant (digits_value 0 lo) (Some (digits_value 0 lo)) False, length lo + 1)
                 else if d = CHR '','' then
                   (let hi = takeWhile is_ascii_digit r2; r3 = dropWhile is_ascii_digit r2
                    in case r3 of
                         [] \<Rightarrow> literal
                       | e # _ \<Rightarrow>
                           if e \<noteq> CHR ''}'' then literal
                           else if hi = [] then Inr (TQuant (digits_value 0 lo) None False, length lo + 2)
                           else if digits_value 0 hi < digits_value 0 lo then Inl ReError
                           else Inr (TQuant (digits_value 0 lo) (Some (digits_value 0 hi)) False,
                                     length lo + length hi + 2))
                 else literal))"

definition escape_token :: "string \<Rightarrow> py_error + (token \<times> nat)" where
  "escape_token cs =
     (case cs of
        [] \<Rightarrow> Inl ReError
      | c # _ \<Rightarrow>
          if c = CHR ''b'' then Inr (TAtom Boundary, 1)
          else if c = CHR ''d'' then Inr (TAtom (Cls False [CDigit]), 1)
          else if c = CHR ''s'' then Inr (TAtom (Cls False [CSpace]), 1)
          else if c = CHR ''w'' then Inr (TAtom (Cls False [CWord]), 1)
          else if c = CHR ''D'' then Inr (TAtom (Cls True [CDigit]), 1)
          else if c = CHR ''S'' then Inr (TAtom (Cls True [CSpace]), 1)
          else if c = CHR ''W'' then Inr (TAtom (Cls True [CWord]), 1)
          else if c = CHR ''n'' then Inr (TAtom (Cls False [CChar (CHR 0x0A)]), 1)
          else if c = CHR ''t'' then Inr (TAtom (Cls False [CChar (CHR 0x09)]), 1)
          else if c = CHR ''r'' then Inr (TAtom (Cls False [CChar (CHR 0x0D)]), 1)
          else if is_ascii_alnum c then Inl Unmodelled
          else Inr (TAtom (Cls False [CChar c]), 1))"

definition next_token :: "char \<Rightarrow> string \<Rightarrow> py_error + (token \<times> nat)" where
  "next_token c cs =
     (if c = CHR 0x5C then escape_token cs
      else if c = CHR ''['' then class_token cs
      else if c = CHR ''{'' then brace_token cs
      else if c = CHR ''?'' then Inr (TQuant 0 (Some 1) True, 0)
      else if c = CHR ''+'' then Inr (TQuant 1 None True, 0)
      else if c = CHR ''*'' then Inr (TQuant 0 None False, 0)
      else if c = CHR ''|'' then Inr (TBar, 0)
      else if c = CHR '')'' then Inr (TClose, 0)
      else if c = CHR ''('' then
        (case cs of
           [] \<Rightarrow> Inr (TOpen, 0)
         | d # ds \<Rightarrow> if d \<noteq> CHR ''?'' then Inr (TOpen, 0)
                     else (case ds of [] \<Rightarrow> Inl ReError
                           | e # _ \<Rightarrow> if e = CHR '':'' then Inr (TOpen, 2) else Inl Unmodelled))
      else if c = CHR ''.'' then Inr (TAtom AnyChar, 0)
      else if c = CHR ''^'' \<or> c = CHR ''$'' then Inl Unmodelled
      else Inr (TAtom (Cls False [CChar c]), 0))"

text \<open>The token at the head of a pattern, with the number of further characters it takes.\<close>

fun tokens :: "string \<Rightarrow> py_error + token list" where
  "tokens [] = Inr []"
| "tokens (c # cs) =
     (case next_token c cs of
        Inl e \<Rightarrow> Inl e
      | Inr (t, k) \<Rightarrow> (case tokens (drop k cs) of Inl e \<Rightarrow> Inl e | Inr ts \<Rightarrow> Inr (t # ts)))"

text \<open>
  Building the pattern from its tokens, with a stack of the open groups. A quantifier
  with nothing before it, after \<open>\b\<close> or after another quantifier is an error, as are
  unbalanced parentheses.
\<close>

fun mk_seq :: "regex list \<Rightarrow> regex" where
  "mk_seq [] = Eps"
| "mk_seq [r] = r"
| "mk_seq (r # rs) = Cat r (mk_seq rs)"

fun mk_alt :: "regex \<Rightarrow> regex list \<Rightarrow> regex" where
  "mk_alt r [] = r"
| "mk_alt r (a # as) = Alt r (mk_alt a as)"

type_synonym frame = "regex list \<times> regex list"

definition close_frame :: "frame \<Rightarrow> regex" where
  "close_frame fr = (case rev (mk_seq (rev (snd fr)) # fst fr) of [] \<Rightarrow> Eps | r # rs \<Rightarrow> mk_alt r rs)"

datatype prev = Start | At | Item | Quant

fun build :: "token list \<Rightarrow> prev \<Rightarrow> frame \<Rightarrow> frame list \<Rightarrow> py_error + regex" where
  "build [] q fr [] = Inr (close_frame fr)"
| "build [] q fr (p # ps) = Inl ReError"
| "build (TAtom r # ts) q (alts, sq) st =
     build ts (if r = Boundary then At else Item) (alts, r # sq) st"
| "build (TQuant lo hi m # ts) q (alts, sq) st =
     (case sq of
        [] \<Rightarrow> Inl ReError
      | r # rs \<Rightarrow> if q = Start \<or> q = At then Inl ReError
                  else if q = Quant then (if m then Inl Unmodelled else Inl ReError)
                  else build ts Quant (alts, Rep lo hi r # rs) st)"
| "build (TOpen # ts) q fr st = build ts Start ([], []) (fr # st)"
| "build (TClose # ts) q fr [] = Inl ReError"
| "build (TClose # ts) q fr ((alts, sq) # st) = build ts Item (alts, close_frame fr # sq) st"
| "build (TBar # ts) q (alts, sq) st = build ts Start (mk_seq (rev sq) # alts, []) st"

text \<open>\<open>re.compile(pattern, flags)\<close>: the parsed pattern with its \<open>IGNORECASE\<close> flag.\<close>

type_synonym compiled = "regex \<times> bool"

definition re_compile :: "bool \<Rightarrow> string \<Rightarrow> py_error + compiled" where
  "re_compile ic pattern =
     (case tokens pattern of
        Inl e \<Rightarrow> Inl e
      | Inr ts \<Rightarrow> (case build ts Start ([], []) [] of Inl e \<Rightarrow> Inl e | Inr r \<Rightarrow> Inr (r, ic)))"

section \<open>Scanning a text\<close>

text \<open>
  \<open>pattern.finditer(text)\<close>: the spans of the successive matches, left to right. At each
  offset not inside the previous match the first end the pattern prefers is taken; after
  an empty match the same offset is tried once more for a match that is not empty.
\<close>

fun cpos :: "cursor \<Rightarrow> nat" where
  "cpos (p, w, rest) = p"

definition attempt :: "compiled \<Rightarrow> cursor \<Rightarrow> (nat \<times> nat) list" where
  "attempt c cur =
     (let p = cpos cur in
      case map cpos (rmatch (snd c) (fst c) cur) of
        [] \<Rightarrow> []
      | e # es \<Rightarrow> if e \<noteq> p then [(p, e)]
                  else (case filter (\<lambda>x. x \<noteq> p) es of [] \<Rightarrow> [(p, p)] | e2 # _ \<Rightarrow> [(p, p), (p, e2)]))"

definition resume_after :: "nat \<Rightarrow> (nat \<times> nat) list \<Rightarrow> nat" where
  "resume_after resume found = (case found of [] \<Rightarrow> resume | _ \<Rightarrow> snd (last found))"

fun scan :: "compiled \<Rightarrow> nat \<Rightarrow> cursor \<Rightarrow> (nat \<times> nat) list" where
  "scan c resume (p, w, []) = (if p < resume then [] else attempt c (p, w, []))"
| "scan c resume (p, w, x # xs) =
     (let found = (if p < resume then [] else attempt c (p, w, x # xs))
      in found @ scan c (resume_after resume found) (p + 1, is_word x, xs))"

definition finditer :: "compiled \<Rightarrow> string \<Rightarrow> (nat \<times> nat) list" where
  "finditer c text = scan c 0 (0, False, text)"

section \<open>detectors.py: RegexDetector\<close>

text \<open>
  The catalog \<open>PATTERNS\<close>, in the source's order, and the detector's state: the compiled
  rules are a dictionary in insertion order. Confidence scores are kept as exact decimals.
\<close>

definition PATTERNS :: "(PIIType \<times> (string \<times> rat) list) list" where
  "PATTERNS = [
     (EMAIL, [
       (raw ''`b[A-Za-z0-9._%+-]+@[A-Za-z0-9.-]+`.[A-Z|a-z]{2,}`b'', 0.99)]),
     (PHONE, [
       (raw ''`b`+?1?[-.`s]?`(?[0-9]{3}`)?[-.`s]?[0-9]{3}[-.`s]?[0-9]{4}`b'', 0.95),
       (raw ''`b`+[1-9]`d{1,14}`b'', 0.90),
       (raw ''`b0[2-9]`d{7,8}`b'', 0.90),
       (raw ''`b`+972[-.`s]?[0-9]{1,2}[-.`s]?[0-9]{3}[-.`s]?[0-9]{4}`b'', 0.95)]),
     (SSN, [
       (raw ''`b`d{3}[-`s]?`d{2}[-`s]?`d{4}`b'', 0.95)]),
     (CREDIT_CARD, [
       (raw ''`b4[0-9]{3}[-`s]?[0-9]{4}[-`s]?[0-9]{4}[-`s]?[0-9]{4}`b'', 0.98),
       (raw ''`b5[1-5][0-9]{2}[-`s]?[0-9]{4}[-`s]?[0-9]{4}[-`s]?[0-9]{4}`b'', 0.98),
       (raw ''`b3[47][0-9]{2}[-`s]?[0-9]{6}[-`s]?[0-9]{5}`b'', 0.98),
       (raw ''`b[0-9]{4}[-`s]?[0-9]{4}[-`s]?[0-9]{4}[-`s]?[0-9]{4}`b'', 0.85)]),
     (IP_ADDRESS, [
       (raw ''`b(?:(?:25[0-5]|2[0-4][0-9]|[01]?[0-9][0-9]?)`.){3}(?:25[0-5]|2[0-4][0-9]|[01]?[0-9][0-9]?)`b'', 0.99),
       (raw ''`b(?:[0-9a-fA-F]{1,4}:){7}[0-9a-fA-F]{1,4}`b'', 0.99)]),
     (DATE, [
       (raw ''`b`d{4}[-/]`d{2}[-/]`d{2}`b'', 0.90),
       (raw ''`b`d{1,2}[-/]`d{1,2}[-/]`d{2,4}`b'', 0.85),
       (raw ''`b(?:Jan|Feb|Mar|Apr|May|Jun|Jul|Aug|Sep|Oct|Nov|Dec)[a-z]*`.?`s+`d{1,2},?`s+`d{4}`b'', 0.90)]),
     (PASSPORT, [
       (raw ''`b[A-Z]{1,2}[0-9]{6,9}`b'', 0.70)]),
     (DRIVER_LICENSE, [
       (raw ''`b[A-Z]{1,2}[0-9]{5,8}`b'', 0.60)]),
     (BANK_ACCOUNT, [
       (raw ''`b[A-Z]{2}[0-9]{2}[A-Z0-9]{4}[0-9]{7}([A-Z0-9]?){0,16}`b'', 0.95),
       (raw ''`b[0-9]{8,17}`b'', 0.50)])]"

record PIIMatch =
  pii_type :: PIIType
  mvalue :: string
  mstart :: nat
  mend :: nat
  confidence :: rat

type_synonym rule = "compiled \<times> rat"

record RegexDetector =
  enabled_types :: "PIIType list"
  compiled_patterns :: "(PIIType \<times> rule list) list"

text \<open>\<open>d[k] = v\<close> and \<open>d[k].append(x)\<close> on a dictionary that keeps insertion order.\<close>

fun dict_set :: "'k \<Rightarrow> 'v \<Rightarrow> ('k \<times> 'v) list \<Rightarrow> ('k \<times> 'v) list" where
  "dict_set k v [] = [(k, v)]"
| "dict_set k v ((k', v') # kvs) = (if k' = k then (k, v) # kvs else (k', v') # dict_set k v kvs)"

fun dict_append :: "'k \<Rightarrow> 'v \<Rightarrow> ('k \<times> 'v list) list \<Rightarrow> ('k \<times> 'v list) list" where
  "dict_append k x [] = []"
| "dict_append k x ((k', v) # kvs) =
     (if k' = k then (k', v @ [x]) # kvs else (k', v) # dict_append k x kvs)"

text \<open>
  \<open>__init__\<close> and \<open>_compile_patterns\<close>: an empty or missing list of enabled types stands
  for all catalog categories; a pattern that does not compile raises out of the
  constructor. The catalog is a parameter of \<open>init_with\<close>.
\<close>

fun compile_rules :: "bool \<Rightarrow> (string \<times> rat) list \<Rightarrow> py_error + rule list" where
  "compile_rules ic [] = Inr []"
| "compile_rules ic ((p, conf) # ps) =
     (case re_compile ic p of
        Inl e \<Rightarrow> Inl e
      | Inr c \<Rightarrow> (case compile_rules ic ps of Inl e \<Rightarrow> Inl e | Inr rs \<Rightarrow> Inr ((c, conf) # rs)))"

fun compile_patterns ::
  "(PIIType \<times> (string \<times> rat) list) list \<Rightarrow> PIIType list \<Rightarrow> (PIIType \<times> rule list) list
     \<Rightarrow> py_error + (PIIType \<times> rule list) list" where
  "compile_patterns table [] d = Inr d"
| "compile_patterns table (t # ts) d =
     (case map_of table t of
        None \<Rightarrow> compile_patterns table ts d
      | Some rules \<Rightarrow>
          (case compile_rules True rules of
             Inl e \<Rightarrow> Inl e
           | Inr rs \<Rightarrow> compile_patterns table ts (dict_set t rs d)))"

definition init_with ::
  "(PIIType \<times> (string \<times> rat) list) list \<Rightarrow> PIIType list option \<Rightarrow> py_error + RegexDetector" where
  "init_with table enabled =
     (let en = (case enabled of None \<Rightarrow> map fst table
                | Some ts \<Rightarrow> if ts = [] then map fst table else ts)
      in case compile_patterns table en [] of
           Inl e \<Rightarrow> Inl e
         | Inr d \<Rightarrow> Inr \<lparr>enabled_types = en, compiled_patterns = d\<rparr>)"

definition init :: "PIIType list option \<Rightarrow> py_error + RegexDetector" where
  "init = init_with PATTERNS"

text \<open>
  \<open>detect\<close>: every rule of every category in dictionary order, every match of the rule
  left to right; a match is accepted unless it overlaps an accepted span. The
  accepted matches are sorted by start, stably.
\<close>

definition spans_overlap :: "nat \<times> nat \<Rightarrow> nat \<times> nat \<Rightarrow> bool" where
  "spans_overlap span1 span2 = (\<not> (snd span1 \<le> fst span2 \<or> snd span2 \<le> fst span1))"

definition slice :: "string \<Rightarrow> nat \<Rightarrow> nat \<Rightarrow> string" where
  "slice s i j = take (j - i) (drop i s)"

definition match_of :: "PIIType \<Rightarrow> rat \<Rightarrow> string \<Rightarrow> nat \<times> nat \<Rightarrow> PIIMatch" where
  "match_of t conf text sp =
     \<lparr>pii_type = t, mvalue = slice text (fst sp) (snd sp), mstart = fst sp, mend = snd sp,
      confidence = conf\<rparr>"

definition hit ::
  "PIIType \<Rightarrow> rat \<Rightarrow> string \<Rightarrow> nat \<times> nat \<Rightarrow> PIIMatch list \<times> (nat \<times> nat) list
     \<Rightarrow> PIIMatch list \<times> (nat \<times> nat) list" where
  "hit t conf text sp acc =
     (if list_ex (spans_overlap sp) (snd acc) then acc
      else (fst acc @ [match_of t conf text sp], snd acc @ [sp]))"

definition run_rule ::
  "PIIType \<Rightarrow> string \<Rightarrow> rule \<Rightarrow> PIIMatch list \<times> (nat \<times> nat) list
     \<Rightarrow> PIIMatch list \<times> (nat \<times> nat) list" where
  "run_rule t text r acc = fold (hit t (snd r) text) (finditer (fst r) text) acc"

definition run_type ::
  "string \<Rightarrow> PIIType \<times> rule list \<Rightarrow> PIIMatch list \<times> (nat \<times> nat) list
     \<Rightarrow> PIIMatch list \<times> (nat \<times> nat) list" where
  "run_type text tr acc = fold (run_rule (fst tr) text) (snd tr) acc"

definition accepted :: "RegexDetector \<Rightarrow> string \<Rightarrow> PIIMatch list \<times> (nat \<times> nat) list" where
  "accepted d text = fold (run_type text) (compiled_patterns d) ([], [])"

definition detect :: "RegexDetector \<Rightarrow> string \<Rightarrow> PIIMatch list" where
  "detect d text = sort_key mstart (fst (accepted d text))"

text \<open>
  \<open>add_custom_pattern\<close>: the custom entry is created before the pattern is compiled, and
  the pattern is compiled without \<open>IGNORECASE\<close>.
\<close>

definition add_custom_pattern ::
  "string \<Rightarrow> string \<Rightarrow> rat \<Rightarrow> RegexDetector \<Rightarrow> (py_error + unit) \<times> RegexDetector" where
  "add_custom_pattern name pattern conf d =
     (let cp = compiled_patterns d;
          cp1 = (if CUSTOM \<notin> set (map fst cp) then cp @ [(CUSTOM, [])] else cp)
      in case re_compile False pattern of
           Inl e \<Rightarrow> (Inl e, d\<lparr>compiled_patterns := cp1\<rparr>)
         | Inr c \<Rightarrow> (Inr (), d\<lparr>compiled_patterns := dict_append CUSTOM (c, conf) cp1\<rparr>))"

text \<open>
  The detector a successful construction returns, and the span of a match.
\<close>

definition the_detector :: "PIIType list option \<Rightarrow> RegexDetector" where
  "the_detector enabled =
     (case init enabled of Inr d \<Rightarrow> d | Inl e \<Rightarrow> \<lparr>enabled_types = [], compiled_patterns = []\<rparr>)"

definition span_of :: "PIIMatch \<Rightarrow> nat \<times> nat" where
  "span_of m = (mstart m, mend m)"

text \<open>
  The loop invariant of \<open>detect\<close>: the accepted spans are the spans of the accepted
  matches, and no two of them overlap.
\<close>

definition acc_inv :: "PIIMatch list \<times> (nat \<times> nat) list \<Rightarrow> bool" where
  "acc_inv acc = (snd acc = map span_of (fst acc)
     \<and> sorted_wrt (\<lambda>a b. \<not> spans_overlap a b) (snd acc))"

text \<open>Where an accepted match comes from: a span of a rule of the detector.\<close>

definition from_rules :: "RegexDetector \<Rightarrow> string \<Rightarrow> PIIMatch \<Rightarrow> bool" where
  "from_rules d text m =
     (\<exists>t rs r sp. (t, rs) \<in> set (compiled_patterns d) \<and> r \<in> set rs
        \<and> sp \<in> set (finditer (fst r) text) \<and> m = match_of t (snd r) text sp)"

section \<open>What a match consumes\<close>

text \<open>
  Between two cursors the pattern consumed a piece of the text; \<open>consumes P k\<close> says that
  at least \<open>k\<close> characters of that piece satisfy \<open>P\<close>. \<open>min_count\<close> is a lower bound for
  that number, computed from the pattern: \<open>K\<close> tells which classes only match characters
  that satisfy \<open>P\<close>, and \<open>any\<close> whether every character does.
\<close>

definition consumes :: "(char \<Rightarrow> bool) \<Rightarrow> nat \<Rightarrow> cursor \<Rightarrow> cursor \<Rightarrow> bool" where
  "consumes P k cur cur' =
     (\<exists>u. snd (snd cur) = u @ snd (snd cur') \<and> fst cur' = fst cur + length u
          \<and> k \<le> length (filter P u))"

fun min_count :: "(bool \<Rightarrow> citem list \<Rightarrow> bool) \<Rightarrow> bool \<Rightarrow> regex \<Rightarrow> nat" where
  "min_count K any Eps = 0"
| "min_count K any (Cls neg items) = (if K neg items then 1 else 0)"
| "min_count K any AnyChar = (if any then 1 else 0)"
| "min_count K any Boundary = 0"
| "min_count K any (Cat a b) = min_count K any a + min_count K any b"
| "min_count K any (Alt a b) = min (min_count K any a) (min_count K any b)"
| "min_count K any (Rep lo hi r) = lo * min_count K any r"

definition min_len :: "regex \<Rightarrow> nat" where
  "min_len r = min_count (\<lambda>neg items. True) True r"

fun digit_item :: "citem \<Rightarrow> bool" where
  "digit_item (CChar c) = is_ascii_digit c"
| "digit_item (CRange lo hi) = (is_ascii_digit lo \<and> is_ascii_digit hi)"
| "digit_item CDigit = True"
| "digit_item CSpace = False"
| "digit_item CWord = False"

definition digit_class :: "bool \<Rightarrow> citem list \<Rightarrow> bool" where
  "digit_class neg items = (\<not> neg \<and> list_all digit_item items)"

definition min_digits :: "regex \<Rightarrow> nat" where
  "min_digits r = min_count digit_class False r"

text \<open>
  Two conditions on the rules a detector holds: no rule can match the empty string, and
  every passport and driver-license rule consumes at least one digit. Both are computed
  from the compiled patterns.
\<close>

definition no_empty_rule :: "RegexDetector \<Rightarrow> bool" where
  "no_empty_rule d =
     list_all (\<lambda>tr. list_all (\<lambda>r. 0 < min_len (fst (fst r))) (snd tr)) (compiled_patterns d)"


text \<open>Both conditions at once, on a dictionary of compiled rules.\<close>

definition rules_ok :: "(PIIType \<times> rule list) list \<Rightarrow> bool" where
  "rules_ok cp =
     list_all (\<lambda>tr. list_all (\<lambda>r. 0 < min_len (fst (fst r))
         \<and> (fst tr \<in> {PASSPORT, DRIVER_LICENSE} \<longrightarrow> 0 < min_digits (fst (fst r)))) (snd tr)) cp"





text \<open>The same two conditions on a catalog entry, after compilation.\<close>

definition entry_ok :: "PIIType \<times> (string \<times> rat) list \<Rightarrow> bool" where
  "entry_ok tr =
     (case compile_rules True (snd tr) of
        Inl e \<Rightarrow> False
      | Inr rs \<Rightarrow> list_all (\<lambda>r. 0 < min_len (fst (fst r))
                      \<and> (fst tr \<in> {PASSPORT, DRIVER_LICENSE} \<longrightarrow> 0 < min_digits (fst (fst r)))) rs)"

section \<open>protector.py: PrivacyProtector\<close>













section \<open>Properties of the generator\<close>

lemma generate_keeps_consistent:
  "consistent g \<Longrightarrow> consistent (snd (generate L t v g))"
  by (simp add: generate_def Let_def split: prod.splits sum.splits)

lemma generate_cache_hit:
  "consistent g \<Longrightarrow> cache g v = Some s \<Longrightarrow> generate L t v g = (Inr s, g)"
  by (simp add: generate_def)

lemma generate_stores:
  "consistent g \<Longrightarrow> fst (generate L t v g) = Inr s \<Longrightarrow> cache (snd (generate L t v g)) v = Some s"
  by (auto simp add: generate_def Let_def split: prod.splits sum.splits if_splits)

lemma generate_keeps_entry:
  "consistent g \<Longrightarrow> cache g v = Some s \<Longrightarrow> cache (snd (generate L t' v' g)) v = Some s"
  by (auto simp add: generate_def Let_def split: prod.splits sum.splits if_splits)

lemma generate_calls_length: "length (fst (generate_calls L cs g)) = length cs"
  by (induction cs arbitrary: g) (auto simp: split_beta)

lemma generate_calls_cached:
  "consistent g \<Longrightarrow> cache g v = Some s \<Longrightarrow> j < length cs \<Longrightarrow> snd (cs ! j) = v
   \<Longrightarrow> fst (generate_calls L cs g) ! j = Inr s"
proof (induction cs arbitrary: g j)
  case Nil
  then show ?case by simp
next
  case (Cons c cs)
  obtain t v' where c: "c = (t, v')" by (cases c)
  let ?g1 = "snd (generate L t v' g)"
  have g1: "consistent ?g1" "cache ?g1 v = Some s"
    using Cons.prems generate_keeps_consistent generate_keeps_entry by blast+
  show ?case
  proof (cases j)
    case 0
    then have "v' = v" using Cons.prems c by simp
    then show ?thesis using 0 c Cons.prems generate_cache_hit [of g v s L t]
      by (simp add: split_beta)
  next
    case (Suc k)
    then have "fst (generate_calls L cs ?g1) ! k = Inr s"
      using Cons.IH [OF g1, of k] Cons.prems by simp
    then show ?thesis using Suc c by (simp add: split_beta)
  qed
qed

text \<open>
  Calls that return. On one generator with consistency mode on, and with no \<open>clear_cache\<close>
  between the calls, any two \<open>generate\<close> calls for the same original that both return a
  value return the same value, whatever their categories and whatever other calls come
  before, between or after them.
\<close>

theorem generate_consistent_same_value:
  assumes "consistent g"
      and "i < j" and "j < length cs"
      and "snd (cs ! i) = snd (cs ! j)"
      and "fst (generate_calls L cs g) ! i = Inr a"
      and "fst (generate_calls L cs g) ! j = Inr b"
  shows "a = b"
  using assms
proof (induction cs arbitrary: g i j)
  case Nil
  then show ?case by simp
next
  case (Cons c cs)
  obtain t v where c: "c = (t, v)" by (cases c)
  let ?g1 = "snd (generate L t v g)"
  have cons1: "consistent ?g1" using Cons.prems(1) generate_keeps_consistent by blast
  obtain k where j: "j = Suc k" using Cons.prems(2) by (cases j) auto
  have rest_j: "fst (generate_calls L cs ?g1) ! k = Inr b"
    using Cons.prems(6) c j by (simp add: split_beta)
  show ?case
  proof (cases i)
    case 0
    then have "fst (generate L t v g) = Inr a"
      using Cons.prems(5) c by (simp add: split_beta)
    then have "cache ?g1 v = Some a"
      using generate_stores Cons.prems(1) by blast
    moreover have "snd (cs ! k) = v" using Cons.prems(4) 0 j c by simp
    moreover have "k < length cs" using Cons.prems(3) j by simp
    ultimately have "fst (generate_calls L cs ?g1) ! k = Inr a"
      using generate_calls_cached cons1 by blast
    then show ?thesis using rest_j by simp
  next
    case (Suc i')
    have "fst (generate_calls L cs ?g1) ! i' = Inr a"
      using Cons.prems(5) c Suc by (simp add: split_beta)
    moreover have "i' < k" "k < length cs" "snd (cs ! i') = snd (cs ! k)"
      using Cons.prems Suc j by auto
    ultimately show ?thesis using Cons.IH [OF cons1 _ _ _ _ rest_j] by blast
  qed
qed

theorem generate_consistent_same_value_witness:
  "consistent fresh_generator \<and> (0::nat) < 1
   \<and> 1 < length [(EMAIL, ''a''), (PHONE, ''a'')]
   \<and> fst (generate_calls fixed_faker [(EMAIL, ''a''), (PHONE, ''a'')] fresh_generator) ! 0
       = Inr ''user@example.org''
   \<and> fst (generate_calls fixed_faker [(EMAIL, ''a''), (PHONE, ''a'')] fresh_generator) ! 1
       = Inr ''user@example.org''"
proof -
  let ?cs = "[(EMAIL, ''a''), (PHONE, ''a'')]"
  have c: "consistent fresh_generator" by (simp add: fresh_generator_def)
  have r0: "fst (generate_calls fixed_faker ?cs fresh_generator) ! 0 = Inr ''user@example.org''"
    by (simp add: generate_def generate_email_def liftE_def fixed_faker_def tick_def
        fresh_generator_def split_beta Let_def)
  have "\<exists>b. fst (generate_calls fixed_faker ?cs fresh_generator) ! 1 = Inr b"
    by (simp add: generate_def generate_email_def liftE_def fixed_faker_def tick_def
        fresh_generator_def split_beta Let_def)
  then obtain b where r1: "fst (generate_calls fixed_faker ?cs fresh_generator) ! 1 = Inr b" ..
  have "''user@example.org'' = b"
    using generate_consistent_same_value [OF c _ _ _ r0 r1] by simp
  then show ?thesis using c r0 r1 by simp
qed

text \<open>
  Claim C4 at the failing input. On one generator with consistency mode on and no
  \<open>clear_cache\<close>, \<open>generate\<close> for the passport category and the original \<open>AB\<close> first
  raises and stores nothing; once a call for another category has stored a value for
  \<open>AB\<close>, the same passport call returns that value. One category and one original, two
  outcomes: the call that raises is the defect of claim C6.
\<close>

theorem generate_raises_then_returns:
  "fst (generate_calls fixed_faker
          [(PASSPORT, ''AB''), (EMAIL, ''AB''), (PASSPORT, ''AB'')] fresh_generator)
     = [Inl ValueError, Inr ''user@example.org'', Inr ''user@example.org'']"
  by (simp add: generate_def generate_passport_def generate_email_def bindE_def liftE_def
      random_int_def pow10_def Let_def split_beta fixed_faker_def tick_def fresh_generator_def
      isdigit_def is_ascii_digit_def code_def)

lemma digit_char_digit: "d < 10 \<Longrightarrow> is_ascii_digit (digit_char d)"
proof -
  assume "d < 10"
  then have "d = 0 \<or> d = 1 \<or> d = 2 \<or> d = 3 \<or> d = 4 \<or> d = 5 \<or> d = 6 \<or> d = 7 \<or> d = 8 \<or> d = 9"
    by arith
  then show ?thesis
    by (elim disjE) (simp_all add: digit_char_def is_ascii_digit_def)
qed

lemma digit_not_slash: "is_ascii_digit c \<Longrightarrow> c \<noteq> CHR ''/''"
  by (auto simp: is_ascii_digit_def)

lemma str_nat_small: "n < 10 \<Longrightarrow> str_nat n = [digit_char n]"
  by (simp add: str_nat.simps)

lemma str_nat_step: "10 \<le> n \<Longrightarrow> str_nat n = str_nat (n div 10) @ [digit_char (n mod 10)]"
  by (subst str_nat.simps) simp

lemma pad2_two: "n < 100 \<Longrightarrow> pad2 n = [digit_char (n div 10), digit_char (n mod 10)]"
  by (cases "n < 10") (simp_all add: pad2_def str_nat_small str_nat_step digit_char_def)

lemma str_nat_four:
  assumes "1000 \<le> n" and "n \<le> 9999"
  shows "str_nat n = [digit_char (n div 1000), digit_char (n div 100 mod 10),
                      digit_char (n div 10 mod 10), digit_char (n mod 10)]"
proof -
  have e: "n div 10 div 10 = n div 100" "n div 100 div 10 = n div 1000"
    by (simp_all add: div_mult2_eq [symmetric])
  have a: "10 \<le> n" "10 \<le> n div 10" "10 \<le> n div 100" "n div 1000 < 10"
    using assms by auto
  have s1: "str_nat n = str_nat (n div 10) @ [digit_char (n mod 10)]"
    using a(1) by (rule str_nat_step)
  have s2: "str_nat (n div 10) = str_nat (n div 100) @ [digit_char (n div 10 mod 10)]"
    using str_nat_step [OF a(2)] e by simp
  have s3: "str_nat (n div 100) = str_nat (n div 1000) @ [digit_char (n div 100 mod 10)]"
    using str_nat_step [OF a(3)] e by simp
  have s4: "str_nat (n div 1000) = [digit_char (n div 1000)]"
    using a(4) by (rule str_nat_small)
  show ?thesis by (simp add: s1 s2 s3 s4)
qed

lemma strftime_mdY_shape:
  assumes "valid_date d"
  shows "is_month_first (strftime Fmt_mdY_slash d)" and "\<not> is_year_first (strftime Fmt_mdY_slash d)"
proof -
  have m: "month d < 100" and dd: "day d < 100" and y: "1000 \<le> year d" "year d \<le> 9999"
    using assms by (auto simp: valid_date_def)
  have dg: "\<And>k. is_ascii_digit (digit_char (k mod 10))" by (simp add: digit_char_digit)
  have dg2: "is_ascii_digit (digit_char (month d div 10))" "is_ascii_digit (digit_char (day d div 10))"
    "is_ascii_digit (digit_char (year d div 1000))"
    using m dd y by (auto intro!: digit_char_digit)
  show "is_month_first (strftime Fmt_mdY_slash d)"
    using dg dg2 by (simp add: is_month_first_def digits_at_def pad2_two [OF m] pad2_two [OF dd]
        str_nat_four [OF y])
  show "\<not> is_year_first (strftime Fmt_mdY_slash d)"
    using digit_not_slash [OF dg [of "day d"]]
    by (simp add: is_year_first_def digits_at_def pad2_two [OF m] pad2_two [OF dd]
        str_nat_four [OF y])
qed

lemma strftime_Ymd_shape:
  assumes "valid_date d"
  shows "is_year_first (strftime Fmt_Ymd_slash d)" and "\<not> is_month_first (strftime Fmt_Ymd_slash d)"
proof -
  have m: "month d < 100" and dd: "day d < 100" and y: "1000 \<le> year d" "year d \<le> 9999"
    using assms by (auto simp: valid_date_def)
  have dg: "\<And>k. is_ascii_digit (digit_char (k mod 10))" by (simp add: digit_char_digit)
  have dg2: "is_ascii_digit (digit_char (month d div 10))" "is_ascii_digit (digit_char (day d div 10))"
    "is_ascii_digit (digit_char (year d div 1000))"
    using m dd y by (auto intro!: digit_char_digit)
  show "is_year_first (strftime Fmt_Ymd_slash d)"
    using dg dg2 by (simp add: is_year_first_def digits_at_def pad2_two [OF m] pad2_two [OF dd]
        str_nat_four [OF y])
  show "\<not> is_month_first (strftime Fmt_Ymd_slash d)"
    using digit_not_slash [OF dg [of "year d div 10"]]
    by (simp add: is_month_first_def digits_at_def pad2_two [OF m] pad2_two [OF dd]
        str_nat_four [OF y])
qed

text \<open>
  Claim C7, as amended. For an original that contains a slash and is not in the cache, and
  a library that draws calendar dates with four-digit years, \<open>generate\<close> for the date
  category returns a string laid out \<open>MM/DD/YYYY\<close> exactly when the first slash of the
  original is at index 0, 1 or 2, and laid out \<open>YYYY/MM/DD\<close> exactly when it is not. The
  value of the first numeric group is not inspected.
\<close>

theorem generate_date_layout:
  assumes "CHR ''/'' \<in> set original"
      and "cache g original = None"
      and "\<forall>r. valid_date (fst (fk_date_object L r))"
  shows "\<exists>s. fst (generate L DATE original g) = Inr s
           \<and> (is_month_first s \<longleftrightarrow> index_of CHR ''/'' original < 3)
           \<and> (is_year_first s \<longleftrightarrow> \<not> index_of CHR ''/'' original < 3)"
  using assms strftime_mdY_shape strftime_Ymd_shape
  by (simp add: generate_def generate_date_def bindE_def liftE_def returnE_def Let_def)

theorem generate_date_layout_witness:
  "CHR ''/'' \<in> set ''2024/01/13'' \<and> cache fresh_generator ''2024/01/13'' = None
   \<and> (\<forall>r. valid_date (fst (fk_date_object fixed_faker r)))
   \<and> (\<exists>s. fst (generate fixed_faker DATE ''2024/01/13'' fresh_generator) = Inr s
           \<and> (is_month_first s \<longleftrightarrow> index_of CHR ''/'' ''2024/01/13'' < 3)
           \<and> (is_year_first s \<longleftrightarrow> \<not> index_of CHR ''/'' ''2024/01/13'' < 3))"
proof -
  have a: "CHR ''/'' \<in> set ''2024/01/13''" by simp
  have b: "cache fresh_generator ''2024/01/13'' = None" by (simp add: fresh_generator_def)
  have c: "\<forall>r. valid_date (fst (fk_date_object fixed_faker r))"
    by (simp add: fixed_faker_def tick_def valid_date_def)
  show ?thesis using a b c generate_date_layout [OF a b c] by blast
qed

lemma str_nat_1999: "str_nat 1999 = ''1999''"
  by (simp add: str_nat_four digit_char_def)

text \<open>
  Claim C7 as stated fails: the original \<open>13/01/2024\<close> starts with the group 13, which is
  greater than 12, and the replacement is still laid out month-first.
\<close>

theorem generate_date_month_first_counterexample:
  "fst (generate fixed_faker DATE ''13/01/2024'' fresh_generator) = Inr ''02/03/1999''
   \<and> is_month_first ''02/03/1999'' \<and> \<not> spec_month_first ''13/01/2024''"
  by (simp add: generate_def generate_date_def bindE_def liftE_def returnE_def Let_def
      fixed_faker_def tick_def fresh_generator_def str_nat_1999 pad2_def str_nat_small
      digit_char_def is_month_first_def digits_at_def is_ascii_digit_def spec_month_first_def
      code_def)

text \<open>
  Claim C6 at the failing input: for the passport category and the original \<open>AB\<close>, which
  has no digit, \<open>generate\<close> raises, for every library, random state and mode, since it
  asks the random source for a number between \<open>10 ** -1\<close> and \<open>10 ** 0 - 1 = 0\<close>.
\<close>

theorem generate_passport_no_digit_raises:
  "fst (generate L PASSPORT ''AB'' \<lparr>faker = r, consistent = c, cache = Map.empty\<rparr>) = Inl ValueError"
  by (simp add: generate_def generate_passport_def bindE_def random_int_def pow10_def Let_def
      isdigit_def is_ascii_digit_def code_def)

section \<open>Properties of the pattern engine\<close>

lemma consumes_refl: "consumes P 0 cur cur"
  by (simp add: consumes_def)

lemma consumes_trans:
  assumes "consumes P j a b" and "consumes P k b c"
  shows "consumes P (j + k) a c"
proof -
  obtain u where u: "snd (snd a) = u @ snd (snd b)" "fst b = fst a + length u" "j \<le> length (filter P u)"
    using assms(1) by (auto simp: consumes_def)
  obtain v where v: "snd (snd b) = v @ snd (snd c)" "fst c = fst b + length v" "k \<le> length (filter P v)"
    using assms(2) by (auto simp: consumes_def)
  have "snd (snd a) = (u @ v) @ snd (snd c)" "fst c = fst a + length (u @ v)"
    "j + k \<le> length (filter P (u @ v))"
    using u v by auto
  then show ?thesis unfolding consumes_def by blast
qed

lemma consumes_weaken: "consumes P k a b \<Longrightarrow> j \<le> k \<Longrightarrow> consumes P j a b"
  by (auto simp: consumes_def)

lemma consumes_remaining: "consumes P k a b \<Longrightarrow> remaining b \<le> remaining a"
  by (cases a, cases b) (auto simp: consumes_def)

lemma step_consumes:
  assumes "c' \<in> set (step Q cur)" and "\<And>c. Q c \<Longrightarrow> k = 1 \<Longrightarrow> P c" and "k \<le> 1"
  shows "consumes P k cur c'"
proof -
  obtain p w rest where cur: "cur = (p, w, rest)" by (cases cur)
  show ?thesis
  proof (cases rest)
    case Nil
    then show ?thesis using assms(1) cur by simp
  next
    case (Cons x xs)
    then have q: "Q x" and c': "c' = (p + 1, is_word x, xs)"
      using assms(1) cur by (auto split: if_splits)
    have "k \<le> length (filter P [x])"
      using assms(2) [OF q] assms(3) by (cases "k = 1") auto
    then show ?thesis
      unfolding consumes_def cur c' Cons
      by (intro exI [of _ "[x]"]) simp
  qed
qed

lemma rep_loop_consumes:
  "\<forall>a b. b \<in> set (f a) \<longrightarrow> consumes P k a b \<Longrightarrow>
   c' \<in> set (rep_loop f count lo hi lastp cur) \<Longrightarrow> consumes P ((lo - count) * k) cur c'"
proof (induction f count lo hi lastp cur arbitrary: c' rule: rep_loop.induct)
  case (1 f count lo hi lastp cur)
  have fp: "\<And>a b. b \<in> set (f a) \<Longrightarrow> consumes P k a b" using "1.prems"(1) by blast
  have mem: "c' \<in> set (if count < lo then concat (map (rep_loop f (Suc count) lo hi lastp) (f cur))
      else (if (case hi of None \<Rightarrow> True | Some h \<Rightarrow> count < h) \<and> lastp \<noteq> Some (remaining cur)
            then concat (map (rep_loop f (Suc count) lo hi (Some (remaining cur)))
                   (filter (\<lambda>c. remaining c \<le> remaining cur) (f cur)))
            else []) @ [cur])"
    using "1.prems"(2) by (subst (asm) rep_loop.simps) assumption
  show ?case
  proof (cases "count < lo")
    case True
    then obtain b where b: "b \<in> set (f cur)" and c: "c' \<in> set (rep_loop f (Suc count) lo hi lastp b)"
      using mem by auto
    have "consumes P ((lo - Suc count) * k) b c'"
      using "1.IH"(1) True b c "1.prems"(1) by blast
    then have "consumes P (k + (lo - Suc count) * k) cur c'"
      using consumes_trans fp [OF b] by blast
    moreover have "k + (lo - Suc count) * k = (lo - count) * k"
      using True by (metis Suc_diff_Suc mult_Suc)
    ultimately show ?thesis by simp
  next
    case False
    then have z: "(lo - count) * k = 0" by simp
    show ?thesis
    proof (cases "c' = cur")
      case True
      show ?thesis unfolding z True by (rule consumes_refl)
    next
      case ne: False
      then have g: "(case hi of None \<Rightarrow> True | Some h \<Rightarrow> count < h) \<and> lastp \<noteq> Some (remaining cur)"
        using mem False by (auto split: if_splits)
      then obtain b where b: "b \<in> set (filter (\<lambda>c. remaining c \<le> remaining cur) (f cur))"
        and c: "c' \<in> set (rep_loop f (Suc count) lo hi (Some (remaining cur)) b)"
        using mem False ne by auto
      have "consumes P ((lo - Suc count) * k) b c'"
        using "1.IH"(2) False g b c "1.prems"(1) by blast
      then have "consumes P 0 b c'" using False by simp
      moreover have "consumes P k cur b" using fp b by simp
      ultimately have "consumes P (k + 0) cur c'"
        using consumes_trans by blast
      then have "consumes P 0 cur c'" by (rule consumes_weaken) simp
      then show ?thesis unfolding z .
    qed
  qed
qed

lemma rmatch_consumes:
  assumes K: "\<And>neg items c. K neg items \<Longrightarrow> cls_match ic neg items c \<Longrightarrow> P c"
      and A: "\<And>c. any \<Longrightarrow> P c"
  shows "c' \<in> set (rmatch ic r cur) \<Longrightarrow> consumes P (min_count K any r) cur c'"
proof (induction r arbitrary: cur c')
  case Eps
  then show ?case using consumes_refl by simp
next
  case (Cls neg items)
  then show ?case using K by (auto intro!: step_consumes)
next
  case AnyChar
  then show ?case using A by (auto intro!: step_consumes)
next
  case Boundary
  then show ?case using consumes_refl by (simp split: if_splits)
next
  case (Cat a b)
  then obtain m where "m \<in> set (rmatch ic a cur)" "c' \<in> set (rmatch ic b m)" by auto
  then have "consumes P (min_count K any a) cur m" "consumes P (min_count K any b) m c'"
    using Cat.IH by blast+
  then show ?case using consumes_trans by simp
next
  case (Alt a b)
  then have "c' \<in> set (rmatch ic a cur) \<or> c' \<in> set (rmatch ic b cur)" by auto
  then show ?case
  proof
    assume "c' \<in> set (rmatch ic a cur)"
    then have "consumes P (min_count K any a) cur c'" using Alt.IH by blast
    then show ?thesis using consumes_weaken [of P "min_count K any a"] by simp
  next
    assume "c' \<in> set (rmatch ic b cur)"
    then have "consumes P (min_count K any b) cur c'" using Alt.IH by blast
    then show ?thesis using consumes_weaken [of P "min_count K any b"] by simp
  qed
next
  case (Rep lo hi r)
  have "consumes P ((lo - 0) * min_count K any r) cur c'"
    using Rep.prems Rep.IH by (intro rep_loop_consumes [of "rmatch ic r"]) simp_all
  then show ?case by simp
qed

subsection \<open>Spans found by a scan\<close>

lemma attempt_span:
  assumes "(s, e) \<in> set (attempt c cur)"
  shows "s = fst cur \<and> (\<exists>c'. c' \<in> set (rmatch (snd c) (fst c) cur) \<and> fst c' = e)"
proof -
  obtain p w rest where cur: "cur = (p, w, rest)" by (cases cur)
  let ?ends = "map cpos (rmatch (snd c) (fst c) cur)"
  have cp: "\<And>x. cpos x = fst x" by (case_tac x) simp
  have "s = p \<and> e \<in> set ?ends"
  proof (cases ?ends)
    case Nil
    then show ?thesis using assms by (simp add: attempt_def)
  next
    case (Cons a as)
    have a: "a \<in> set ?ends" using Cons by simp
    show ?thesis
    proof (cases "filter (\<lambda>x. x \<noteq> p) as")
      case Nil
      have "attempt c cur = (if a \<noteq> p then [(p, a)] else [(p, p)])"
        using Cons Nil cur by (simp add: attempt_def)
      then show ?thesis using assms a by (auto split: if_splits)
    next
      case f: (Cons b bs)
      have "b \<in> set (filter (\<lambda>x. x \<noteq> p) as)" using f by simp
      then have b: "b \<in> set ?ends" using Cons by simp
      have "attempt c cur = (if a \<noteq> p then [(p, a)] else [(p, p), (p, b)])"
        using Cons f cur by (simp add: attempt_def)
      then show ?thesis using assms a b by (auto split: if_splits)
    qed
  qed
  then obtain c' where h: "c' \<in> set (rmatch (snd c) (fst c) cur)" "cpos c' = e" "s = p"
    by auto
  have "\<exists>c'. c' \<in> set (rmatch (snd c) (fst c) cur) \<and> fst c' = e"
    using h(1,2) cp by (intro exI [of _ c']) simp
  then show ?thesis using h(3) cur by simp
qed

lemma scan_span:
  assumes "(s, e) \<in> set (scan c resume cur)" and "snd (snd cur) = drop (fst cur) text"
      and "fst cur \<le> length text"
  shows "s \<le> length text
         \<and> (\<exists>w c'. c' \<in> set (rmatch (snd c) (fst c) (s, w, drop s text)) \<and> fst c' = e)"
  using assms
proof (induction c resume cur rule: scan.induct)
  case (1 c resume p w)
  then have "(s, e) \<in> set (attempt c (p, w, []))" by (auto split: if_splits)
  then show ?case using attempt_span [of s e c "(p, w, [])"] "1.prems"(2,3) by auto
next
  case (2 c resume p w x xs)
  let ?found = "if p < resume then [] else attempt c (p, w, x # xs)"
  have "(s, e) \<in> set ?found \<or> (s, e) \<in> set (scan c (resume_after resume ?found) (p + 1, is_word x, xs))"
    using "2.prems"(1) by (auto simp: Let_def)
  then show ?case
  proof
    assume "(s, e) \<in> set ?found"
    then have "(s, e) \<in> set (attempt c (p, w, x # xs))" by (auto split: if_splits)
    then show ?thesis using attempt_span [of s e c "(p, w, x # xs)"] "2.prems"(2,3) by auto
  next
    assume a: "(s, e) \<in> set (scan c (resume_after resume ?found) (p + 1, is_word x, xs))"
    have d: "x # xs = drop p text" using "2.prems"(2) by simp
    then have "xs = drop (p + 1) text"
      by (metis Suc_eq_plus1 drop_Suc drop_drop list.sel(3) tl_drop)
    moreover have "p + 1 \<le> length text"
    proof (rule ccontr)
      assume "\<not> p + 1 \<le> length text"
      then have "drop p text = []" by simp
      then show False using d by simp
    qed
    ultimately show ?thesis using "2.IH" a by simp
  qed
qed

lemma finditer_span:
  assumes "(s, e) \<in> set (finditer c text)"
      and K: "\<And>neg items x. K neg items \<Longrightarrow> cls_match (snd c) neg items x \<Longrightarrow> P x"
      and A: "\<And>x. any \<Longrightarrow> P x"
  shows "s \<le> e \<and> e \<le> length text
         \<and> min_count K any (fst c) \<le> length (filter P (slice text s e))"
proof -
  have sc: "s \<le> length text
      \<and> (\<exists>w c'. c' \<in> set (rmatch (snd c) (fst c) (s, w, drop s text)) \<and> fst c' = e)"
    using scan_span [of s e c 0 "(0, False, text)" "text"] assms(1) by (simp add: finditer_def)
  then have sle: "s \<le> length text" by simp
  obtain w c' where c': "c' \<in> set (rmatch (snd c) (fst c) (s, w, drop s text))" "fst c' = e"
    using sc by blast
  have "consumes P (min_count K any (fst c)) (s, w, drop s text) c'"
    using rmatch_consumes [of K "snd c" P any c' "fst c" "(s, w, drop s text)"] K A c'(1) by blast
  then obtain u where u: "drop s text = u @ snd (snd c')" "e = s + length u"
    "min_count K any (fst c) \<le> length (filter P u)"
    using c'(2) by (auto simp: consumes_def)
  have "length (drop s text) = length u + length (snd (snd c'))" using u(1) by simp
  then have lu: "length u \<le> length text - s" by simp
  have "u = take (length u) (drop s text)" using u(1) by simp
  then have sl: "slice text s e = u" using u(2) by (simp add: slice_def)
  have "e \<le> length text" using lu sle u(2) by linarith
  then show ?thesis using u sl by simp
qed

subsection \<open>Accepted matches\<close>

lemma spans_overlap_sym: "spans_overlap a b = spans_overlap b a"
  by (auto simp: spans_overlap_def)

lemma spans_overlap_disjoint:
  "\<not> spans_overlap (s1, e1) (s2, e2) \<Longrightarrow> {s1..<e1} \<inter> {s2..<e2} = {}"
  by (auto simp: spans_overlap_def)

lemma span_of_match_of [simp]: "span_of (match_of t conf text sp) = sp"
  by (simp add: span_of_def match_of_def)

lemma hit_inv: "acc_inv acc \<Longrightarrow> acc_inv (hit t conf text sp acc)"
proof -
  assume a: "acc_inv acc"
  obtain ms seen where acc: "acc = (ms, seen)" by (cases acc)
  have s: "seen = map span_of ms" "sorted_wrt (\<lambda>a b. \<not> spans_overlap a b) seen"
    using a acc by (auto simp: acc_inv_def)
  show ?thesis
  proof (cases "list_ex (spans_overlap sp) seen")
    case True
    then show ?thesis using a acc by (simp add: hit_def)
  next
    case False
    then have "\<forall>x\<in>set seen. \<not> spans_overlap x sp"
      using spans_overlap_sym by (auto simp: list_ex_iff)
    then have "sorted_wrt (\<lambda>a b. \<not> spans_overlap a b) (seen @ [sp])"
      using s(2) by (simp add: sorted_wrt_append)
    moreover have "seen @ [sp] = map span_of (ms @ [match_of t conf text sp])"
      using s(1) by simp
    ultimately show ?thesis using False acc by (simp add: hit_def acc_inv_def)
  qed
qed

lemma fold_acc_inv:
  "(\<And>x a. acc_inv a \<Longrightarrow> acc_inv (f x a)) \<Longrightarrow> acc_inv a \<Longrightarrow> acc_inv (fold f xs a)"
  by (induction xs arbitrary: a) auto

lemma accepted_inv: "acc_inv (accepted d text)"
proof -
  have r: "\<And>t r a. acc_inv a \<Longrightarrow> acc_inv (run_rule t text r a)"
    unfolding run_rule_def by (rule fold_acc_inv) (auto intro: hit_inv)
  have ty: "\<And>tr a. acc_inv a \<Longrightarrow> acc_inv (run_type text tr a)"
    unfolding run_type_def by (rule fold_acc_inv) (auto intro: r)
  have "acc_inv ([], [])" by (simp add: acc_inv_def)
  then show ?thesis unfolding accepted_def by (intro fold_acc_inv) (auto intro: ty)
qed

lemma fold_hit_mem:
  "m \<in> set (fst (fold (hit t conf text) sps acc)) \<Longrightarrow>
   m \<in> set (fst acc) \<or> (\<exists>sp\<in>set sps. m = match_of t conf text sp)"
proof (induction sps arbitrary: acc)
  case Nil
  then show ?case by simp
next
  case (Cons sp sps)
  then have "m \<in> set (fst (hit t conf text sp acc)) \<or> (\<exists>sp\<in>set sps. m = match_of t conf text sp)"
    by simp
  moreover have "m \<in> set (fst (hit t conf text sp acc)) \<Longrightarrow> m \<in> set (fst acc) \<or> m = match_of t conf text sp"
    by (auto simp: hit_def split: if_splits)
  ultimately show ?case by auto
qed

lemma fold_rules_mem:
  "m \<in> set (fst (fold (run_rule t text) rs acc)) \<Longrightarrow>
   m \<in> set (fst acc) \<or> (\<exists>r\<in>set rs. \<exists>sp\<in>set (finditer (fst r) text). m = match_of t (snd r) text sp)"
proof (induction rs arbitrary: acc)
  case Nil
  then show ?case by simp
next
  case (Cons r rs)
  then have "m \<in> set (fst (run_rule t text r acc))
      \<or> (\<exists>r\<in>set rs. \<exists>sp\<in>set (finditer (fst r) text). m = match_of t (snd r) text sp)"
    by simp
  moreover have "m \<in> set (fst (run_rule t text r acc)) \<Longrightarrow>
      m \<in> set (fst acc) \<or> (\<exists>sp\<in>set (finditer (fst r) text). m = match_of t (snd r) text sp)"
    unfolding run_rule_def by (rule fold_hit_mem)
  ultimately show ?case by auto
qed

lemma fold_types_mem:
  "m \<in> set (fst (fold (run_type text) trs acc)) \<Longrightarrow>
   m \<in> set (fst acc) \<or> (\<exists>tr\<in>set trs. \<exists>r\<in>set (snd tr). \<exists>sp\<in>set (finditer (fst r) text).
       m = match_of (fst tr) (snd r) text sp)"
proof (induction trs arbitrary: acc)
  case Nil
  then show ?case by simp
next
  case (Cons tr trs)
  then have "m \<in> set (fst (run_type text tr acc))
      \<or> (\<exists>tr\<in>set trs. \<exists>r\<in>set (snd tr). \<exists>sp\<in>set (finditer (fst r) text).
            m = match_of (fst tr) (snd r) text sp)"
    by simp
  moreover have "m \<in> set (fst (run_type text tr acc)) \<Longrightarrow>
      m \<in> set (fst acc) \<or> (\<exists>r\<in>set (snd tr). \<exists>sp\<in>set (finditer (fst r) text).
            m = match_of (fst tr) (snd r) text sp)"
    unfolding run_type_def by (rule fold_rules_mem)
  ultimately show ?case by auto
qed

lemma accepted_from_rules: "m \<in> set (fst (accepted d text)) \<Longrightarrow> from_rules d text m"
proof -
  assume "m \<in> set (fst (accepted d text))"
  then obtain tr r sp where h: "tr \<in> set (compiled_patterns d)" "r \<in> set (snd tr)"
    "sp \<in> set (finditer (fst r) text)" "m = match_of (fst tr) (snd r) text sp"
    using fold_types_mem [of m "text" "compiled_patterns d" "([], [])"] by (auto simp: accepted_def)
  have "(fst tr, snd tr) \<in> set (compiled_patterns d)" using h(1) by simp
  then show ?thesis unfolding from_rules_def using h(2,3,4) by blast
qed

lemma detect_set: "set (detect d text) = set (fst (accepted d text))"
  by (simp add: detect_def)

subsection \<open>Sorting keeps the matches apart\<close>

lemma sorted_wrt_insort_key:
  assumes "\<And>a b. P a b = P b a"
  shows "sorted_wrt P (insort_key f x xs) = ((\<forall>y\<in>set xs. P x y) \<and> sorted_wrt P xs)"
  using assms by (induction xs) (auto simp: set_insort_key)

lemma sorted_wrt_sort_key:
  assumes "\<And>a b. P a b = P b a" and "sorted_wrt P xs"
  shows "sorted_wrt P (sort_key f xs)"
  using assms(2)
proof (induction xs)
  case Nil
  then show ?case by simp
next
  case (Cons x xs)
  have "sort_key f (x # xs) = insort_key f x (sort_key f xs)" by (simp add: sort_key_def)
  then show ?case using Cons sorted_wrt_insort_key [of P f x "sort_key f xs", OF assms(1)] by simp
qed

lemma detect_sorted_wrt:
  "sorted_wrt (\<lambda>a b. \<not> spans_overlap (span_of a) (span_of b)) (detect d text)"
proof -
  have "acc_inv (accepted d text)" by (rule accepted_inv)
  then have "snd (accepted d text) = map span_of (fst (accepted d text))"
    "sorted_wrt (\<lambda>a b. \<not> spans_overlap a b) (snd (accepted d text))"
    by (auto simp: acc_inv_def)
  then have "sorted_wrt (\<lambda>a b. \<not> spans_overlap a b) (map span_of (fst (accepted d text)))"
    by metis
  then have "sorted_wrt (\<lambda>a b. \<not> spans_overlap (span_of a) (span_of b)) (fst (accepted d text))"
    by (simp add: sorted_wrt_map)
  then show ?thesis unfolding detect_def
    by (intro sorted_wrt_sort_key) (auto simp: spans_overlap_sym)
qed

text \<open>
  Claim C1. For every detector state (any categories, any custom rules) and every text, no
  two matches of the list \<open>detect\<close> returns overlap: neither by the code's own test nor
  as half-open intervals \<open>[start, end)\<close>. Two spans that only touch do not overlap.
\<close>

theorem detect_disjoint:
  assumes "i < j" and "j < length (detect d text)"
  shows "\<not> spans_overlap (span_of (detect d text ! i)) (span_of (detect d text ! j))
         \<and> {mstart (detect d text ! i)..<mend (detect d text ! i)}
             \<inter> {mstart (detect d text ! j)..<mend (detect d text ! j)} = {}"
proof -
  have "\<not> spans_overlap (span_of (detect d text ! i)) (span_of (detect d text ! j))"
    using detect_sorted_wrt [of d "text"] assms by (simp add: sorted_wrt_iff_nth_less)
  then show ?thesis using spans_overlap_disjoint by (simp add: span_of_def)
qed

theorem detect_disjoint_witness:
  "(0::nat) < 1 \<and> 1 < length (detect (the_detector (Some [SSN])) ''123-45-6789 987-65-4321'')
   \<and> \<not> spans_overlap (span_of (detect (the_detector (Some [SSN])) ''123-45-6789 987-65-4321'' ! 0))
         (span_of (detect (the_detector (Some [SSN])) ''123-45-6789 987-65-4321'' ! 1))
   \<and> {mstart (detect (the_detector (Some [SSN])) ''123-45-6789 987-65-4321'' ! 0)..<
        mend (detect (the_detector (Some [SSN])) ''123-45-6789 987-65-4321'' ! 0)}
       \<inter> {mstart (detect (the_detector (Some [SSN])) ''123-45-6789 987-65-4321'' ! 1)..<
          mend (detect (the_detector (Some [SSN])) ''123-45-6789 987-65-4321'' ! 1)} = {}"
proof -
  have l: "1 < length (detect (the_detector (Some [SSN])) ''123-45-6789 987-65-4321'')"
    by code_simp
  have z: "(0::nat) < 1" by simp
  show ?thesis using l detect_disjoint [OF z l] by simp
qed

subsection \<open>Detectors built from the catalog\<close>

lemma patterns_ok: "list_all entry_ok PATTERNS"
  by code_simp

lemma set_dict_set: "set (dict_set k v d) \<subseteq> insert (k, v) (set d)"
  by (induction d) (auto split: if_splits)

lemma rules_ok_dict_set:
  assumes "rules_ok d" and "rules_ok [(t, rs)]"
  shows "rules_ok (dict_set t rs d)"
  using assms set_dict_set [of t rs d]
  unfolding rules_ok_def list_all_iff by fastforce

lemma compile_patterns_ok:
  assumes "list_all entry_ok table"
  shows "rules_ok d0 \<Longrightarrow> \<exists>d. compile_patterns table ts d0 = Inr d \<and> rules_ok d"
proof (induction ts arbitrary: d0)
  case Nil
  then show ?case by simp
next
  case (Cons t ts)
  show ?case
  proof (cases "map_of table t")
    case None
    then show ?thesis using Cons by simp
  next
    case (Some rules)
    then have "(t, rules) \<in> set table" by (rule map_of_SomeD)
    then have "entry_ok (t, rules)" using assms by (simp add: list_all_iff)
    then obtain rs where rs: "compile_rules True rules = Inr rs" "rules_ok [(t, rs)]"
      by (auto simp: entry_ok_def rules_ok_def split: sum.splits)
    have "rules_ok (dict_set t rs d0)" using Cons.prems rs(2) by (rule rules_ok_dict_set)
    then show ?thesis using Cons.IH Some rs(1) by simp
  qed
qed

lemma init_ok: "\<exists>d. init enabled = Inr d \<and> rules_ok (compiled_patterns d)"
proof -
  have e: "rules_ok []" by (simp add: rules_ok_def)
  obtain en where en: "en = (case enabled of None \<Rightarrow> map fst PATTERNS
      | Some ts \<Rightarrow> if ts = [] then map fst PATTERNS else ts)" by simp
  obtain d where "compile_patterns PATTERNS en [] = Inr d" "rules_ok d"
    using compile_patterns_ok [OF patterns_ok e] by blast
  then show ?thesis using en by (simp add: init_def init_with_def Let_def)
qed

lemma init_the_detector: "init enabled = Inr (the_detector enabled)"
  using init_ok [of enabled] by (auto simp: the_detector_def)

lemma rules_ok_no_empty: "rules_ok (compiled_patterns d) \<Longrightarrow> no_empty_rule d"
  unfolding rules_ok_def no_empty_rule_def list_all_iff by blast


lemma init_no_empty_rule: "init enabled = Inr d \<Longrightarrow> no_empty_rule d"
  using init_ok [of enabled] rules_ok_no_empty by auto


subsection \<open>Spans and values of the matches\<close>


text \<open>
  Claim C2, as amended. For a detector none of whose rules can match the empty string, and
  every detector constructed from the catalog (for any list of enabled types) is one, every
  match \<open>detect\<close> returns has \<open>start < end \<le> len(text)\<close> and its value is
  \<open>text[start:end]\<close>.
\<close>

theorem detect_match_span:
  assumes "init enabled = Inr d \<or> no_empty_rule d" and "m \<in> set (detect d text)"
  shows "mstart m < mend m \<and> mend m \<le> length text
         \<and> mvalue m = slice text (mstart m) (mend m)"
proof -
  have ne: "no_empty_rule d" using assms(1) init_no_empty_rule by blast
  obtain t rs r sp where h: "(t, rs) \<in> set (compiled_patterns d)" "r \<in> set rs"
    "sp \<in> set (finditer (fst r) text)" "m = match_of t (snd r) text sp"
    using accepted_from_rules [of m d "text"] assms(2) detect_set unfolding from_rules_def by blast
  have pos: "0 < min_len (fst (fst r))"
    using ne h(1,2) unfolding no_empty_rule_def list_all_iff by fastforce
  have "(fst sp, snd sp) \<in> set (finditer (fst r) text)" using h(3) by simp
  then have b: "fst sp \<le> snd sp \<and> snd sp \<le> length text
      \<and> min_count (\<lambda>neg items. True) True (fst (fst r))
           \<le> length (filter (\<lambda>c. True) (slice text (fst sp) (snd sp)))"
    using finditer_span [of "fst sp" "snd sp" "fst r" "text" "\<lambda>neg items. True" "\<lambda>c. True" True]
    by simp
  then have "min_len (fst (fst r)) \<le> length (slice text (fst sp) (snd sp))"
    by (simp add: min_len_def)
  then have "0 < length (slice text (fst sp) (snd sp))"
    using pos by linarith
  then have "fst sp < snd sp" by (simp add: slice_def)
  then show ?thesis using b h(4) by (simp add: match_of_def)
qed

theorem detect_match_span_witness:
  "(init (Some [SSN]) = Inr (the_detector (Some [SSN])) \<or> no_empty_rule (the_detector (Some [SSN])))
   \<and> hd (detect (the_detector (Some [SSN])) ''123-45-6789'')
        \<in> set (detect (the_detector (Some [SSN])) ''123-45-6789'')
   \<and> mstart (hd (detect (the_detector (Some [SSN])) ''123-45-6789''))
        < mend (hd (detect (the_detector (Some [SSN])) ''123-45-6789''))
   \<and> mend (hd (detect (the_detector (Some [SSN])) ''123-45-6789'')) \<le> length ''123-45-6789''
   \<and> mvalue (hd (detect (the_detector (Some [SSN])) ''123-45-6789''))
        = slice ''123-45-6789'' (mstart (hd (detect (the_detector (Some [SSN])) ''123-45-6789'')))
            (mend (hd (detect (the_detector (Some [SSN])) ''123-45-6789'')))"
proof -
  let ?d = "the_detector (Some [SSN])"
  have a: "init (Some [SSN]) = Inr ?d \<or> no_empty_rule ?d" using init_the_detector by blast
  have "detect ?d ''123-45-6789'' \<noteq> []" by code_simp
  then have b: "hd (detect ?d ''123-45-6789'') \<in> set (detect ?d ''123-45-6789'')" by simp
  show ?thesis using a b detect_match_span [OF a b] by blast
qed

text \<open>
  Claim C2 as stated fails with a custom rule that matches the empty string: after
  \<open>add_custom_pattern("e", "x*")\<close> the text \<open>a\<close> yields two matches whose start equals their end.
\<close>

theorem detect_empty_match_counterexample:
  "map span_of (detect (snd (add_custom_pattern ''e'' ''x*'' (4 / 5) (the_detector None))) ''a'')
     = [(0, 0), (1, 1)]"
  by code_simp

subsection \<open>Construction and registration\<close>

text \<open>
  Claim C10. A detector constructed with an empty list of enabled types is the detector
  constructed with no list: construction succeeds, all catalog categories are enabled, and
  \<open>detect\<close> returns the same matches on every text; on \<open>123-45-6789\<close> that is one
  national-id match, not an empty list.
\<close>

theorem init_empty_list_is_all:
  "init (Some []) = init None
   \<and> init (Some []) = Inr (the_detector (Some []))
   \<and> enabled_types (the_detector (Some [])) = map fst PATTERNS
   \<and> detect (the_detector (Some [])) text = detect (the_detector None) text
   \<and> map pii_type (detect (the_detector (Some [])) ''123-45-6789'') = [SSN]"
proof -
  have a: "init (Some []) = init None" by (simp add: init_def init_with_def)
  have b: "init (Some []) = Inr (the_detector (Some []))" by (rule init_the_detector)
  have c: "the_detector (Some []) = the_detector None" using a by (simp add: the_detector_def)
  have "enabled_types dd = map fst PATTERNS" if "init (Some []) = Inr dd" for dd
    using that by (auto simp: init_def init_with_def Let_def split: sum.splits)
  then have "enabled_types (the_detector (Some [])) = map fst PATTERNS"
    using b by blast
  moreover have "map pii_type (detect (the_detector (Some [])) ''123-45-6789'') = [SSN]"
    by code_simp
  ultimately show ?thesis using a b c by simp
qed

lemma compile_rules_members:
  "compile_rules ic rules = Inr rs \<Longrightarrow> (p, c) \<in> set rules \<Longrightarrow> \<exists>r. re_compile ic p = Inr r"
proof (induction rules arbitrary: rs)
  case Nil
  then show ?case by simp
next
  case (Cons x rules)
  obtain q k where x: "x = (q, k)" by (cases x)
  show ?case using Cons x by (auto split: sum.splits)
qed

lemma compile_patterns_members:
  "compile_patterns table ts d0 = Inr d \<Longrightarrow> t \<in> set ts \<Longrightarrow> map_of table t = Some rules
   \<Longrightarrow> \<exists>rs. compile_rules True rules = Inr rs"
proof (induction ts arbitrary: d0)
  case Nil
  then show ?case by simp
next
  case (Cons u ts)
  show ?case
  proof (cases "u = t")
    case True
    then show ?thesis using Cons.prems by (auto split: sum.splits)
  next
    case False
    then have "t \<in> set ts" using Cons.prems(2) by simp
    then show ?thesis using Cons.IH Cons.prems(1,3)
      by (auto split: option.splits sum.splits)
  qed
qed

lemma detect_extra_empty_entry:
  "detect (d\<lparr>compiled_patterns := compiled_patterns d @ [(t, [])]\<rparr>) text = detect d text"
  by (simp add: detect_def accepted_def run_type_def)

text \<open>
  Claim C8. A pattern that does not compile raises when it is registered: at construction,
  if it belongs to an enabled category of the catalog, and in \<open>add_custom_pattern\<close>, which
  returns the error of \<open>re.compile\<close>. \<open>detect\<close> compiles nothing: it is a total function of
  the compiled rules and the text, and after a failed registration it returns what it
  returned before.
\<close>

theorem compile_errors_at_registration:
  "(re_compile False pattern = Inl e \<longrightarrow>
      fst (add_custom_pattern name pattern conf d) = Inl e
      \<and> detect (snd (add_custom_pattern name pattern conf d)) text = detect d text)
   \<and> (t \<in> set (case enabled of None \<Rightarrow> map fst table
                  | Some ts \<Rightarrow> if ts = [] then map fst table else ts)
      \<and> map_of table t = Some rules \<and> (p, c) \<in> set rules \<and> re_compile True p = Inl e'
      \<longrightarrow> (\<exists>err. init_with table enabled = Inl err))"
proof (intro conjI impI)
  assume f: "re_compile False pattern = Inl e"
  then show "fst (add_custom_pattern name pattern conf d) = Inl e"
    by (simp add: add_custom_pattern_def Let_def)
  show "detect (snd (add_custom_pattern name pattern conf d)) text = detect d text"
    using f detect_extra_empty_entry [of d CUSTOM "text"]
    by (simp add: add_custom_pattern_def Let_def)
next
  let ?en = "case enabled of None \<Rightarrow> map fst table
             | Some ts \<Rightarrow> if ts = [] then map fst table else ts"
  assume h: "t \<in> set ?en \<and> map_of table t = Some rules \<and> (p, c) \<in> set rules
             \<and> re_compile True p = Inl e'"
  show "\<exists>err. init_with table enabled = Inl err"
  proof (cases "compile_patterns table ?en []")
    case (Inl err)
    then show ?thesis by (simp add: init_with_def Let_def)
  next
    case (Inr dd)
    then obtain rs where "compile_rules True rules = Inr rs"
      using compile_patterns_members h by blast
    then have "\<exists>r. re_compile True p = Inr r" using compile_rules_members h by blast
    then show ?thesis using h by simp
  qed
qed

theorem compile_errors_at_registration_witness:
  "re_compile False ''('' = Inl ReError
   \<and> fst (add_custom_pattern ''n'' ''('' (4 / 5) (the_detector None)) = Inl ReError
   \<and> detect (snd (add_custom_pattern ''n'' ''('' (4 / 5) (the_detector None))) ''123-45-6789''
       = detect (the_detector None) ''123-45-6789''
   \<and> SSN \<in> set (case Some [SSN] of None \<Rightarrow> map fst [(SSN, [(''[0-9'', 1 / 2)])]
                  | Some ts \<Rightarrow> if ts = [] then map fst [(SSN, [(''[0-9'', 1 / 2)])] else ts)
   \<and> map_of [(SSN, [(''[0-9'', 1 / 2)])] SSN = Some [(''[0-9'', 1 / 2)]
   \<and> (''[0-9'', 1 / 2) \<in> set [(''[0-9'', 1 / 2 :: rat)]
   \<and> re_compile True ''[0-9'' = Inl ReError
   \<and> (\<exists>err. init_with [(SSN, [(''[0-9'', 1 / 2)])] (Some [SSN]) = Inl err)"
proof -
  have a: "re_compile False ''('' = Inl ReError" by code_simp
  have b: "re_compile True ''[0-9'' = Inl ReError" by code_simp
  have c: "SSN \<in> set (case Some [SSN] of None \<Rightarrow> map fst [(SSN, [(''[0-9'', 1 / 2 :: rat)])]
                  | Some ts \<Rightarrow> if ts = [] then map fst [(SSN, [(''[0-9'', 1 / 2)])] else ts)
      \<and> map_of [(SSN, [(''[0-9'', 1 / 2 :: rat)])] SSN = Some [(''[0-9'', 1 / 2)]
      \<and> (''[0-9'', 1 / 2) \<in> set [(''[0-9'', 1 / 2 :: rat)]
      \<and> re_compile True ''[0-9'' = Inl ReError"
    using b by simp
  show ?thesis
    using a b c
      compile_errors_at_registration [of "''(''" ReError "''n''" "4 / 5" "the_detector None"
        "''123-45-6789''" SSN "[(SSN, [(''[0-9'', 1 / 2)])]" "Some [SSN]" "[(''[0-9'', 1 / 2)]"
        "''[0-9''" "1 / 2" ReError]
    by simp
qed

text \<open>
  Claim C9 at the failing input. A custom rule is compiled without \<open>IGNORECASE\<close>: after
  \<open>add_custom_pattern("code", "abc")\<close> the text \<open>ABC\<close> yields no match, while \<open>abc\<close> yields
  one. The catalog's rules, compiled by \<open>_compile_patterns\<close>, do ignore case: the passport
  rule \<open>[A-Z]{1,2}[0-9]{6,9}\<close> matches \<open>ab123456\<close>.
\<close>

theorem custom_rule_is_case_sensitive:
  "detect (snd (add_custom_pattern ''code'' ''abc'' (4 / 5) (the_detector None))) ''ABC'' = []
   \<and> map span_of (detect (snd (add_custom_pattern ''code'' ''abc'' (4 / 5) (the_detector None))) ''abc'')
       = [(0, 3)]
   \<and> map pii_type (detect (the_detector None) ''ab123456'') = [PASSPORT]"
  by code_simp

subsection \<open>The first candidate wins\<close>














section \<open>Properties of the protector\<close>

subsection \<open>When the generator returns\<close>





subsection \<open>Digits in passport and driver-license matches\<close>









subsection \<open>The replacement loop\<close>


subsection \<open>Splicing from the end\<close>




subsection \<open>The order of the matches\<close>






subsection \<open>The anonymized text\<close>







end
